theory Spec2Isabelle
  imports Main "HOL-Library.Word"
begin

section \<open>Memory: the line buffer, C strings, faults\<close>

text \<open>
  The shell keeps one heap buffer per input line (the one \<open>getline\<close> allocates) and works
  on it in place: \<open>preprocess\<close> writes a terminator and a NUL byte into it, the job loop of
  \<open>main\<close> overwrites every \<open>;\<close> and \<open>&\<close> by NUL, and \<open>strtok_r\<close> overwrites the space
  after each token by NUL. Jobs and tokens are pointers into that buffer. The buffer is a
  list of bytes, a pointer into it is an offset, and the C string at a pointer is what
  lies between the pointer and the first NUL byte after it.
\<close>

type_synonym buffer = "char list"
type_synonym ptr = nat

definition NUL :: char where
  "NUL = CHR 0x00"

text \<open>Undefined behaviour of the C program that the model makes a value.\<close>

datatype fault = OutOfBounds | NullDeref | IntOverflow

text \<open>A write \<open>a[i] = v\<close> into an array of fixed size.\<close>

definition store :: "'a list \<Rightarrow> nat \<Rightarrow> 'a \<Rightarrow> fault + 'a list" where
  "store a i v = (if i < length a then Inr (a[i := v]) else Inl OutOfBounds)"

definition cstr :: "buffer \<Rightarrow> ptr \<Rightarrow> string" where
  "cstr buf p = takeWhile (\<lambda>c. c \<noteq> NUL) (drop p buf)"

definition strlen :: "buffer \<Rightarrow> ptr \<Rightarrow> nat" where
  "strlen buf p = length (cstr buf p)"

text \<open>
  The string at \<open>p\<close> ends inside the buffer. \<open>getline\<close> returns such a buffer, and every
  read of the string functions below stays inside a buffer that satisfies it.
\<close>

definition terminated :: "buffer \<Rightarrow> ptr \<Rightarrow> bool" where
  "terminated buf p = (p + strlen buf p < length buf)"

text \<open>\<open>isspace\<close> of \<open>ctype.h\<close> in the C locale (the shell never calls \<open>setlocale\<close>).\<close>

definition isspace :: "char \<Rightarrow> bool" where
  "isspace c = (c = CHR 0x20 \<or> c = CHR 0x09 \<or> c = CHR 0x0A \<or> c = CHR 0x0B
                \<or> c = CHR 0x0C \<or> c = CHR 0x0D)"

text \<open>\<open>int length = strlen(str)\<close>: the conversion of a \<open>size_t\<close> to a 32-bit \<open>int\<close>.\<close>

definition int_of_size_t :: "nat \<Rightarrow> int" where
  "int_of_size_t n = sint (word_of_nat n :: 32 word)"

definition strspn :: "buffer \<Rightarrow> ptr \<Rightarrow> string \<Rightarrow> nat" where
  "strspn buf s accept = length (takeWhile (\<lambda>c. c \<in> set accept) (drop s buf))"

definition strcspn :: "buffer \<Rightarrow> ptr \<Rightarrow> string \<Rightarrow> nat" where
  "strcspn buf s reject =
     length (takeWhile (\<lambda>c. c \<noteq> NUL \<and> c \<notin> set reject) (drop s buf))"

text \<open>
  \<open>strpbrk(s, accept)\<close>: the first byte of the string at \<open>s\<close> that is in \<open>accept\<close>, or NULL.
\<close>

definition strpbrk :: "buffer \<Rightarrow> ptr \<Rightarrow> string \<Rightarrow> ptr option" where
  "strpbrk buf s accept =
     (let n = strcspn buf s accept in
      if s + n < length buf \<and> buf ! (s + n) \<noteq> NUL then Some (s + n) else None)"

text \<open>
  \<open>strtok_r(s, delim, &save)\<close> with \<open>s\<close> not NULL, as the shell calls it and as glibc
  implements it: skip the delimiters, return NULL at the end of the string, otherwise cut
  the token off by a NUL byte and leave \<open>save\<close> behind it (on the closing NUL when the
  token is the last one). The result is the buffer, the token and \<open>save\<close>.
\<close>

definition strtok_r :: "buffer \<Rightarrow> ptr \<Rightarrow> string \<Rightarrow> buffer \<times> ptr option \<times> ptr" where
  "strtok_r buf s delim =
     (let s1 = s + strspn buf s delim in
      if buf ! s1 = NUL then (buf, None, s1)
      else
        let e = s1 + strcspn buf s1 delim in
        if buf ! e = NUL then (buf, Some s1, e)
        else (buf[e := NUL], Some s1, e + 1))"

section \<open>preprocess\<close>

text \<open>
  \<open>length\<close> and \<open>pos\<close> are of type \<open>int\<close>. A sum or difference of two of them that does not
  fit the type is undefined behaviour in C; the model makes it the fault \<open>IntOverflow\<close>.
\<close>

definition INT_MIN :: int where
  "INT_MIN = - 2147483648"

definition INT_MAX :: int where
  "INT_MAX = 2147483647"

definition int_result :: "int \<Rightarrow> fault + int" where
  "int_result v = (if INT_MIN \<le> v \<and> v \<le> INT_MAX then Inr v else Inl IntOverflow)"

function preprocess_loop :: "buffer \<Rightarrow> int \<Rightarrow> fault + buffer" where
  "preprocess_loop str pos =
     (if pos \<ge> 0 then
        (if \<not> isspace (str ! nat pos) then
           (if str ! nat pos = CHR '';'' \<or> str ! nat pos = CHR ''&'' then
              (case int_result (pos + 1) of
                 Inl f \<Rightarrow> Inl f
               | Inr i \<Rightarrow> store str (nat i) NUL)
            else
              (case int_result (pos + 1) of
                 Inl f \<Rightarrow> Inl f
               | Inr i \<Rightarrow>
                   (case store str (nat i) (CHR '';'') of
                      Inl f \<Rightarrow> Inl f
                    | Inr str' \<Rightarrow>
                        (case int_result (pos + 2) of
                           Inl f \<Rightarrow> Inl f
                         | Inr j \<Rightarrow> store str' (nat j) NUL))))
         else
           (case int_result (pos - 1) of
              Inl f \<Rightarrow> Inl f
            | Inr pos' \<Rightarrow> preprocess_loop str pos'))
      else Inr str)"
  by pat_completeness auto
termination
  by (relation "measure (\<lambda>(str, pos). nat (pos + 1))")
    (auto simp: int_result_def split: if_splits)

declare preprocess_loop.simps [simp del]

text \<open>\<open>str\<close> is the buffer \<open>getline\<close> returned: \<open>main\<close> passes a pointer to its first byte.\<close>

definition preprocess :: "buffer \<Rightarrow> fault + buffer" where
  "preprocess str =
     (let length' = int_of_size_t (strlen str 0) in
        case int_result (length' - 1) of
          Inl f \<Rightarrow> Inl f
        | Inr pos \<Rightarrow> preprocess_loop str pos)"

section \<open>The shell's state and its environment\<close>

datatype out_event = Stdout string | Stderr string | Perror string

text \<open>
  \<open>linebuf\<close> is the buffer of the current line, \<open>cwd\<close> the working directory of the shell
  process, \<open>printed\<close> what it has written (one entry per call), \<open>spawned\<close> the children it has
  forked, each with the argument vector handed to \<open>execvp\<close>. \<open>jobs\<close> is a ghost field: the
  text and flag of every call of \<open>exec_command\<close>, in order.
\<close>

record shell_state =
  linebuf :: buffer
  cwd :: string
  printed :: "out_event list"
  spawned :: "(nat \<times> string list) list"
  jobs :: "(string \<times> bool) list"

datatype wstatus = WExited nat | WSignaled nat | WOther

text \<open>
  What the operating system answers. \<open>chdir_result d p\<close> is the new working directory when
  \<open>chdir(p)\<close> succeeds in directory \<open>d\<close>; \<open>fork_result n\<close> is the child's identifier when
  the \<open>n\<close>-th \<open>fork\<close> succeeds; \<open>waitpid_result pid\<close> is the status a blocking wait for
  \<open>pid\<close> returns. The model follows the shell process; what a child does after \<open>fork\<close> is
  seen through its status only.
\<close>

record os =
  start_dir :: string
  open_ok :: bool
  dup2_ok :: bool
  chdir_result :: "string \<Rightarrow> string \<Rightarrow> string option"
  fork_result :: "nat \<Rightarrow> nat option"
  waitpid_result :: "nat \<Rightarrow> wstatus"

text \<open>
  The places where the program ends: \<open>exit(0)\<close> of the builtin (line 56), \<open>return 0\<close> of
  \<open>main\<close> after the message \<open>Shutting down...\<close> (lines 133 and 173), \<open>exit(2)\<close>
  after \<open>Unable to read command line\<close> (line 130), \<open>exit(1)\<close> after \<open>open\<close> (line 108),
  \<open>exit(2)\<close> after \<open>dup2\<close> (line 114) and \<open>exit(EXIT_FAILURE)\<close> after \<open>fork\<close> (line 74).
\<close>

datatype exit_site =
  ExitBuiltin | ShuttingDown | UnableToRead | OpenFailure | Dup2Failure | ForkFailure

datatype outcome =
  Returned shell_state
  | Exit exit_site int shell_state
  | Fault fault

definition printf :: "string \<Rightarrow> shell_state \<Rightarrow> shell_state" where
  "printf s st = st\<lparr>printed := printed st @ [Stdout s]\<rparr>"

definition fprintf_stderr :: "string \<Rightarrow> shell_state \<Rightarrow> shell_state" where
  "fprintf_stderr s st = st\<lparr>printed := printed st @ [Stderr s]\<rparr>"

definition perror :: "string \<Rightarrow> shell_state \<Rightarrow> shell_state" where
  "perror s st = st\<lparr>printed := printed st @ [Perror s]\<rparr>"

definition digit :: "nat \<Rightarrow> char" where
  "digit d = char_of (48 + d)"

text \<open>The conversion \<open>%d\<close> of a value that is not negative.\<close>

function show_nat :: "nat \<Rightarrow> string" where
  "show_nat n = (if n < 10 then [digit n] else show_nat (n div 10) @ [digit (n mod 10)])"
  by pat_completeness auto
termination
  by (relation "measure id") auto

declare show_nat.simps [simp del]

section \<open>exec_command\<close>

definition MAX_ARGS :: nat where
  "MAX_ARGS = 128"

definition EXIT_FAILURE :: int where
  "EXIT_FAILURE = 1"

text \<open>
  The \<open>for\<close> loop of \<open>exec_command\<close>. \<open>token\<close> is the result of the call of \<open>strtok_r\<close>
  made last, \<open>line\<close> the save pointer it left.
\<close>

function tokenize_loop ::
  "buffer \<Rightarrow> ptr \<Rightarrow> ptr option list \<Rightarrow> nat \<Rightarrow> ptr option \<Rightarrow> buffer \<times> ptr option list \<times> nat"
where
  "tokenize_loop buf line tokens size' token =
     (case token of
        None \<Rightarrow> (buf, tokens, size')
      | Some t \<Rightarrow>
          if size' < MAX_ARGS then
            (case strtok_r buf line '' '' of
               (buf', token', line') \<Rightarrow>
                 tokenize_loop buf' line' (tokens[size' := Some t]) (size' + 1) token')
          else (buf, tokens, size'))"
  by pat_completeness auto
termination
  by (relation "measure (\<lambda>(buf, line, tokens, size', token). MAX_ARGS - size')") auto

declare tokenize_loop.simps [simp del]

text \<open>
  Lines 45 to 51: the array and the loop. The array is not initialised in the source;
  the model starts it with NULL in every slot, and the code reads no slot it has not
  written before. The result is the buffer, the array and \<open>size\<close>.
\<close>

definition tokens_for :: "buffer \<Rightarrow> ptr \<Rightarrow> buffer \<times> ptr option list \<times> nat" where
  "tokens_for buf line =
     (case strtok_r buf line '' '' of
        (buf1, token, line1) \<Rightarrow> tokenize_loop buf1 line1 (replicate MAX_ARGS None) 0 token)"

text \<open>Lines 45 to 52: the loop and the sentinel \<open>tokens[size] = NULL\<close>.\<close>

definition tokenize :: "buffer \<Rightarrow> ptr \<Rightarrow> fault + (buffer \<times> ptr option list \<times> nat)" where
  "tokenize buf line =
     (case tokens_for buf line of
        (buf2, tokens, size') \<Rightarrow>
          (case store tokens size' None of
             Inl f \<Rightarrow> Inl f
           | Inr tokens' \<Rightarrow> Inr (buf2, tokens', size')))"

text \<open>The strings \<open>execvp\<close> reads from the vector: up to the first NULL.\<close>

fun read_argv :: "buffer \<Rightarrow> ptr option list \<Rightarrow> string list" where
  "read_argv buf [] = []"
| "read_argv buf (None # ts) = []"
| "read_argv buf (Some t # ts) = cstr buf t # read_argv buf ts"

text \<open>Lines 70 to 98, in the parent.\<close>

definition launch :: "os \<Rightarrow> shell_state \<Rightarrow> ptr option list \<Rightarrow> ptr \<Rightarrow> bool \<Rightarrow> outcome" where
  "launch os st tokens t0 is_foreground =
     (case fork_result os (length (spawned st)) of
        None \<Rightarrow> Exit ForkFailure EXIT_FAILURE (perror ''fork failed'' st)
      | Some child_id \<Rightarrow>
          let st1 = st\<lparr>spawned := spawned st @ [(child_id, read_argv (linebuf st) tokens)]\<rparr>
          in
            if is_foreground then
              (case waitpid_result os child_id of
                 WExited code \<Rightarrow>
                   Returned (printf (''['' @ cstr (linebuf st) t0 @ '' exited with status ''
                                      @ show_nat code @ '']\<newline>'') st1)
               | WSignaled sig \<Rightarrow>
                   Returned (printf (''['' @ cstr (linebuf st) t0 @ '' died with status ''
                                      @ show_nat sig @ '']\<newline>'') st1)
               | WOther \<Rightarrow>
                   Returned (printf ''Something unexpected happened.\<newline>'' st1))
            else Returned st1)"

definition exec_command :: "os \<Rightarrow> shell_state \<Rightarrow> ptr \<Rightarrow> bool \<Rightarrow> outcome" where
  "exec_command os st line is_foreground =
     (case tokenize (linebuf st) line of
        Inl f \<Rightarrow> Fault f
      | Inr (buf, tokens, size') \<Rightarrow>
          let st1 = st\<lparr>linebuf := buf\<rparr> in
          (case tokens ! 0 of
             None \<Rightarrow> Fault NullDeref
           | Some t0 \<Rightarrow>
               if cstr buf t0 = ''exit'' then Exit ExitBuiltin 0 st1
               else if cstr buf t0 = ''cd'' then
                 (if size' > 1 then
                    (case tokens ! 1 of
                       None \<Rightarrow> Fault NullDeref
                     | Some t1 \<Rightarrow>
                         (case chdir_result os (cwd st1) (cstr buf t1) of
                            Some d \<Rightarrow> Returned (st1\<lparr>cwd := d\<rparr>)
                          | None \<Rightarrow>
                              Returned (printf (''shell: cd: '' @ cstr buf t1
                                @ '': No such file or directory\<newline>'') st1)))
                  else Returned st1)
               else launch os st1 tokens t0 is_foreground))"

section \<open>main\<close>

text \<open>
  The job loop ends because every round moves \<open>line\<close> behind a terminator found in the
  buffer and \<open>exec_command\<close> leaves the buffer's length as it is.
\<close>

lemma strpbrk_bounds:
  "strpbrk buf s accept = Some n \<Longrightarrow> s \<le> n \<and> n < length buf"
  by (auto simp: strpbrk_def Let_def split: if_splits)

lemma strtok_r_length:
  "strtok_r buf s delim = (buf', token, s') \<Longrightarrow> length buf' = length buf"
  by (auto simp: strtok_r_def Let_def split: if_splits)

lemma tokenize_loop_length:
  "tokenize_loop buf line tokens size' token = (buf', tokens', n)
   \<Longrightarrow> length buf' = length buf"
proof (induction buf line tokens size' token rule: tokenize_loop.induct)
  case (1 buf line tokens size' token)
  show ?case
  proof (cases token)
    case None
    with "1.prems" show ?thesis by (simp add: tokenize_loop.simps)
  next
    case (Some t)
    show ?thesis
    proof (cases "size' < MAX_ARGS")
      case False
      with Some "1.prems" show ?thesis by (simp add: tokenize_loop.simps)
    next
      case True
      obtain b k l where st: "strtok_r buf line '' '' = (b, k, l)"
        by (cases "strtok_r buf line '' ''") auto
      from "1.prems" Some True st
      have "tokenize_loop b l (tokens[size' := Some t]) (size' + 1) k = (buf', tokens', n)"
        by (simp add: tokenize_loop.simps [of buf])
      with "1.IH" [OF Some True st [symmetric] refl] have "length buf' = length b"
        by simp
      with strtok_r_length [OF st] show ?thesis by simp
    qed
  qed
qed

lemma tokenize_length:
  assumes "tokenize buf line = Inr (buf', tokens, n)"
  shows "length buf' = length buf"
proof -
  obtain b k l where st: "strtok_r buf line '' '' = (b, k, l)"
    by (cases "strtok_r buf line '' ''") auto
  obtain b2 ts m where tl: "tokenize_loop b l (replicate MAX_ARGS None) 0 k = (b2, ts, m)"
    by (cases "tokenize_loop b l (replicate MAX_ARGS None) 0 k") auto
  from assms st tl have "b2 = buf'"
    by (simp add: tokenize_def tokens_for_def split: sum.splits)
  with tokenize_loop_length [OF tl] strtok_r_length [OF st] show ?thesis
    by simp
qed

lemma launch_linebuf:
  "launch os st tokens t0 fg = Returned st' \<Longrightarrow> linebuf st' = linebuf st"
  by (auto simp: launch_def Let_def printf_def split: option.splits wstatus.splits if_splits)

lemma exec_command_length:
  assumes "exec_command os st line fg = Returned st'"
  shows "length (linebuf st') = length (linebuf st)"
proof (cases "tokenize (linebuf st) line")
  case (Inl f)
  with assms show ?thesis by (simp add: exec_command_def)
next
  case (Inr r)
  obtain buf tokens n where r: "r = (buf, tokens, n)" by (cases r) auto
  from Inr r have len: "length buf = length (linebuf st)"
    by (auto dest: tokenize_length)
  from assms Inr r have "linebuf st' = buf"
    by (auto simp: exec_command_def Let_def printf_def
        split: option.splits if_splits dest!: launch_linebuf)
  with len show ?thesis by simp
qed

text \<open>
  The \<open>for\<close> loop of \<open>main\<close> (lines 145 to 150) over the jobs of one line. It stops when
  \<open>exec_command\<close> does not return. The update of \<open>jobs\<close> is the ghost record of the
  call: the string \<open>exec_command\<close> finds at \<open>line\<close>, and the flag.
\<close>

function job_loop :: "os \<Rightarrow> shell_state \<Rightarrow> ptr \<Rightarrow> outcome" where
  "job_loop os st line =
     (case strpbrk (linebuf st) line '';&'' of
        None \<Rightarrow> Returned st
      | Some next \<Rightarrow>
          let is_foreground = (linebuf st ! next = CHR '';'');
              buf = (linebuf st)[next := NUL];
              st1 = st\<lparr>linebuf := buf, jobs := jobs st @ [(cstr buf line, is_foreground)]\<rparr>
          in
            (case exec_command os st1 line is_foreground of
               Returned st2 \<Rightarrow> job_loop os st2 (next + 1)
             | Exit site code st2 \<Rightarrow> Exit site code st2
             | Fault f \<Rightarrow> Fault f))"
  by pat_completeness auto
termination
proof (relation "measure (\<lambda>(os, st, line). length (linebuf st) - line)")
  show "wf (measure (\<lambda>(os, st, line). length (linebuf st) - line))"
    by simp
next
  fix os :: os and st :: shell_state and line p :: nat
    and is_foreground buf st1 st2
  assume found: "strpbrk (linebuf st) line '';&'' = Some p"
    and "is_foreground = (linebuf st ! p = CHR '';'')"
    and buf: "buf = (linebuf st)[p := NUL]"
    and st1: "st1 = st\<lparr>linebuf := buf, jobs := jobs st @ [(cstr buf line, is_foreground)]\<rparr>"
    and ret: "exec_command os st1 line is_foreground = Returned st2"
  from exec_command_length [OF ret] buf st1
  have "length (linebuf st2) = length (linebuf st)"
    by simp
  with strpbrk_bounds [OF found]
  show "((os, st2, p + 1), (os, st, line))
          \<in> measure (\<lambda>(os, st, line). length (linebuf st) - line)"
    by auto
qed

declare job_loop.simps [simp del]

text \<open>
  The sweep of lines 153 to 162. Which children have ended when it runs is the
  environment's choice: \<open>found\<close> lists what the calls of \<open>waitpid\<close> return, in order.
\<close>

fun reap :: "(nat \<times> wstatus) list \<Rightarrow> shell_state \<Rightarrow> shell_state" where
  "reap [] st = st"
| "reap ((pid, status) # found) st =
     reap found
       (case status of
          WExited code \<Rightarrow>
            printf (''[background process '' @ show_nat pid @ '' exited with status ''
                    @ show_nat code @ '']\<newline>'') st
        | WSignaled sig \<Rightarrow>
            printf (''[background process '' @ show_nat pid @ '' exited with status ''
                    @ show_nat sig @ '']\<newline>'') st
        | WOther \<Rightarrow> printf ''Something unexpected happened.\<newline>'' st)"

text \<open>
  What \<open>getline\<close> does, call by call. \<open>Line buf found\<close> is a line read into the fresh
  buffer \<open>buf\<close> (\<open>found\<close> is what the sweep after that line meets). In the two other events
  \<open>getline\<close> returns \<open>-1\<close>, and the number is the value of \<open>errno\<close> that the shell then
  tests: \<open>EndOfFile e\<close> is the end of the input, where \<open>getline\<close> leaves \<open>errno\<close> as it
  was, \<open>ReadError e\<close> is a read that failed and set \<open>errno\<close> to \<open>e\<close>. The shell does not
  look at the stream to tell them apart. A list that is used up stands for the end of the
  input with \<open>errno\<close> 0.
\<close>

datatype read_event =
  Line buffer "(nat \<times> wstatus) list"
  | EndOfFile nat
  | ReadError nat

definition EINVAL :: nat where
  "EINVAL = 22"


text \<open>Lines 128 to 137: \<open>getline\<close> has returned \<open>-1\<close> and \<open>errno\<close> is \<open>e\<close>.\<close>

definition getline_failed :: "shell_state \<Rightarrow> nat \<Rightarrow> outcome" where
  "getline_failed st e =
     (if e = EINVAL then Exit UnableToRead 2 (perror ''Unable to read command line'' st)
      else Exit ShuttingDown 0 (printf ''\<newline>Shutting down...\<newline>'' st))"

text \<open>The \<open>while (true)\<close> loop of \<open>main\<close>, lines 122 to 166, and the \<open>return 0\<close> after it.\<close>

fun read_loop :: "os \<Rightarrow> shell_state \<Rightarrow> read_event list \<Rightarrow> outcome" where
  "read_loop os st [] = getline_failed (printf ''$ '' st) 0"
| "read_loop os st (EndOfFile e # input) = getline_failed (printf ''$ '' st) e"
| "read_loop os st (ReadError e # input) = getline_failed (printf ''$ '' st) e"
| "read_loop os st (Line buf found # input) =
     (case preprocess buf of
        Inl f \<Rightarrow> Fault f
      | Inr line \<Rightarrow>
          (case job_loop os ((printf ''$ '' st)\<lparr>linebuf := line\<rparr>) 0 of
             Returned st' \<Rightarrow> read_loop os (reap found st') input
           | Exit site code st' \<Rightarrow> Exit site code st'
           | Fault f \<Rightarrow> Fault f))"

definition initial_state :: "os \<Rightarrow> shell_state" where
  "initial_state os =
     \<lparr>linebuf = [], cwd = start_dir os, printed = [], spawned = [], jobs = []\<rparr>"

definition main :: "os \<Rightarrow> string list \<Rightarrow> read_event list \<Rightarrow> outcome" where
  "main os argv input =
     (let st = initial_state os in
        if length argv = 2 then
          (if \<not> open_ok os then
             Exit OpenFailure 1
               (fprintf_stderr (''Failed to open input file '' @ argv ! 1 @ ''\<newline>'') st)
           else if \<not> dup2_ok os then
             Exit Dup2Failure 2 (fprintf_stderr ''Failed to set new file as input\<newline>'' st)
           else read_loop os st input)
        else read_loop os st input)"

text \<open>
  An environment to run examples in: every \<open>fork\<close> succeeds, every child exits with
  status 0, and \<open>/tmp\<close> is the only directory that can be entered.
\<close>

definition example_os :: os where
  "example_os =
     \<lparr>start_dir = ''/home'', open_ok = True, dup2_ok = True,
      chdir_result = (\<lambda>d p. if p = ''/tmp'' then Some ''/tmp'' else None),
      fork_result = (\<lambda>n. Some (100 + n)),
      waitpid_result = (\<lambda>pid. WExited 0)\<rparr>"

text \<open>The same environment, but every child exits with a status of its own.\<close>

definition status_os :: os where
  "status_os = example_os\<lparr>waitpid_result := (\<lambda>pid. WExited (pid - 100))\<rparr>"

section \<open>The splitting the specification describes\<close>

text \<open>
  Two functions on strings that follow the words of the specification, to compare the
  code with. \<open>spec_split sep s\<close> is the Command Tokenizer: the maximal runs of bytes of
  \<open>s\<close> that are not separators, in order, so that consecutive separators collapse and no
  run is empty.
\<close>

function spec_split :: "(char \<Rightarrow> bool) \<Rightarrow> string \<Rightarrow> string list" where
  "spec_split sep s =
     (case dropWhile sep s of
        [] \<Rightarrow> []
      | c # w \<Rightarrow>
          takeWhile (\<lambda>x. \<not> sep x) (c # w)
            # spec_split sep (dropWhile (\<lambda>x. \<not> sep x) (c # w)))"
  by pat_completeness auto
termination
proof (relation "measure (\<lambda>(sep, s). length s)")
  show "wf (measure (\<lambda>(sep, s). length s))" by simp
next
  fix sep :: "char \<Rightarrow> bool" and s :: string and c w
  assume a: "dropWhile sep s = c # w"
  have "\<not> sep c"
    using hd_dropWhile [of sep s] a by simp
  then have "dropWhile (\<lambda>x. \<not> sep x) (c # w) = dropWhile (\<lambda>x. \<not> sep x) w"
    by simp
  moreover have "length (dropWhile (\<lambda>x. \<not> sep x) w) \<le> length w"
    by (rule length_dropWhile_le)
  ultimately have "length (dropWhile (\<lambda>x. \<not> sep x) (c # w)) < length (c # w)"
    by simp
  also have "\<dots> \<le> length s"
    using length_dropWhile_le [of sep s] a by simp
  finally show "((sep, dropWhile (\<lambda>x. \<not> sep x) (c # w)), (sep, s))
                  \<in> measure (\<lambda>(sep, s). length s)"
    by simp
qed

declare spec_split.simps [simp del]

text \<open>
  \<open>spec_jobs s\<close> is the Job Splitter: every \<open>;\<close> or \<open>&\<close> ends one job, whose text is
  what lies between the terminator before it and itself and whose flag says that the
  terminator is \<open>;\<close>; what follows the last terminator is no job.
\<close>

definition terminator :: "char \<Rightarrow> bool" where
  "terminator c = (c = CHR '';'' \<or> c = CHR ''&'')"

function spec_jobs :: "string \<Rightarrow> (string \<times> bool) list" where
  "spec_jobs s =
     (case dropWhile (\<lambda>c. \<not> terminator c) s of
        [] \<Rightarrow> []
      | t # rest \<Rightarrow> (takeWhile (\<lambda>c. \<not> terminator c) s, t = CHR '';'') # spec_jobs rest)"
  by pat_completeness auto
termination
proof (relation "measure length")
  show "wf (measure length)" by simp
next
  fix s :: string and t rest
  assume "dropWhile (\<lambda>c. \<not> terminator c) s = t # rest"
  with length_dropWhile_le [of "\<lambda>c. \<not> terminator c" s]
  show "(rest, s) \<in> measure length"
    by simp
qed

declare spec_jobs.simps [simp del]

text \<open>
  \<open>spec_run_jobs os st js\<close> is what the specification says of a line whose jobs are \<open>js\<close>:
  the jobs are dispatched one after the other, in order, each with its own text and its
  own flag, and the line is over when one of them ends the shell. The dispatcher is
  \<open>exec_command\<close> of the code, run on a buffer that holds the text of the job and nothing
  else.
\<close>

fun spec_run_jobs :: "os \<Rightarrow> shell_state \<Rightarrow> (string \<times> bool) list \<Rightarrow> outcome" where
  "spec_run_jobs os st [] = Returned st"
| "spec_run_jobs os st ((job, foreground) # js) =
     (case exec_command os
             (st\<lparr>linebuf := job @ [NUL], jobs := jobs st @ [(job, foreground)]\<rparr>) 0 foreground of
        Returned st' \<Rightarrow> spec_run_jobs os st' js
      | Exit site code st' \<Rightarrow> Exit site code st'
      | Fault f \<Rightarrow> Fault f)"

text \<open>An outcome without the bytes of the line buffer.\<close>

definition forget_buffer :: "outcome \<Rightarrow> outcome" where
  "forget_buffer r =
     (case r of
        Returned st \<Rightarrow> Returned (st\<lparr>linebuf := []\<rparr>)
      | Exit site code st \<Rightarrow> Exit site code (st\<lparr>linebuf := []\<rparr>)
      | Fault f \<Rightarrow> Fault f)"


text \<open>
  A job that the dispatcher comes back from, when every \<open>fork\<close> succeeds: it has a first
  word, fewer words than the argument vector has slots, and its first word is not the
  termination keyword.
\<close>

definition dispatch_returns :: "string \<Rightarrow> bool" where
  "dispatch_returns job =
     (let words = spec_split (\<lambda>c. c = CHR '' '') job
      in words \<noteq> [] \<and> length words < MAX_ARGS \<and> hd words \<noteq> ''exit'')"

text \<open>
  What the tokenizer may do to the buffer: the bytes it changes lie in the job's text,
  between \<open>lo\<close> and \<open>hi\<close>, they were blanks, and they are NUL afterwards.
\<close>

definition frame :: "nat \<Rightarrow> nat \<Rightarrow> buffer \<Rightarrow> buffer \<Rightarrow> bool" where
  "frame lo hi buf buf' =
     (length buf' = length buf
      \<and> (\<forall>i<length buf. buf' ! i \<noteq> buf ! i
            \<longrightarrow> lo \<le> i \<and> i < hi \<and> buf ! i = CHR '' '' \<and> buf' ! i = NUL))"

section \<open>Properties of preprocess\<close>

lemma int_of_size_t_small: 
  assumes "n < 2 ^ 31" shows "int_of_size_t n = int n"
proof -
  have "(word_of_nat n :: 32 word) = word_of_int (int n)"
    by simp
  then have "int_of_size_t n = (int n + 2 ^ 31) mod 2 ^ 32 - 2 ^ 31"
    unfolding int_of_size_t_def by (simp only: int_word_sint) simp
  also from assms have "\<dots> = int n"
    by simp
  finally show ?thesis .
qed

lemma cstr_at: "NUL \<notin> set t \<Longrightarrow> cstr (pre @ t @ NUL # rest) (length pre) = t"
  by (auto simp: cstr_def takeWhile_tail)

lemma cstr_at0: "NUL \<notin> set t \<Longrightarrow> cstr (t @ NUL # rest) 0 = t"
  using cstr_at [of t "[]" rest] by simp

lemma isspace_not_NUL: "isspace c \<Longrightarrow> c \<noteq> NUL"
  by (auto simp: isspace_def NUL_def)

lemma int_result_ok: "INT_MIN \<le> v \<Longrightarrow> v \<le> INT_MAX \<Longrightarrow> int_result v = Inr v"
  by (simp add: int_result_def)

lemma preprocess_loop_skip:
  "\<forall>c\<in>set ws. isspace c \<Longrightarrow> length s + length ws < 2 ^ 31 \<Longrightarrow>
   preprocess_loop (s @ ws @ rest) (int (length s + length ws) - 1)
   = preprocess_loop (s @ ws @ rest) (int (length s) - 1)"
proof (induction ws arbitrary: rest rule: rev_induct)
  case Nil
  show ?case by simp
next
  case (snoc c ws)
  have sp: "isspace c" using snoc.prems by simp
  have nth: "(s @ (ws @ [c]) @ rest) ! (length s + length ws) = c"
    by (simp add: nth_append)
  have ok: "int_result (int (length s + length ws) - 1) = Inr (int (length s + length ws) - 1)"
    using snoc.prems(2) by (intro int_result_ok) (simp_all add: INT_MIN_def INT_MAX_def)
  have "preprocess_loop (s @ (ws @ [c]) @ rest) (int (length s + length (ws @ [c])) - 1)
        = preprocess_loop (s @ (ws @ [c]) @ rest) (int (length s + length ws) - 1)"
    using sp nth ok
    by (subst preprocess_loop.simps) (simp add: nat_add_distrib)
  also have "\<dots> = preprocess_loop (s @ (ws @ [c]) @ rest) (int (length s) - 1)"
    using snoc.IH [of "c # rest"] snoc.prems by simp
  finally show ?case .
qed

lemma terminated_decomp:
  assumes "terminated buf p"
  obtains pre w post where "buf = pre @ w @ NUL # post"
    and "length pre = p" and "NUL \<notin> set w" and "cstr buf p = w"
proof -
  let ?d = "drop p buf"
  let ?P = "\<lambda>c. c \<noteq> NUL"
  from assms have lt: "length (takeWhile ?P ?d) < length ?d" and p: "p < length buf"
    by (auto simp: terminated_def strlen_def cstr_def)
  then have ne: "dropWhile ?P ?d \<noteq> []"
    by (metis takeWhile_eq_all_conv dropWhile_eq_Nil_conv less_irrefl)
  then obtain c rest where cr: "dropWhile ?P ?d = c # rest"
    by (cases "dropWhile ?P ?d") auto
  from hd_dropWhile [OF ne] cr have "c = NUL" by simp
  with cr have "?d = cstr buf p @ NUL # rest"
    by (metis cstr_def takeWhile_dropWhile_id)
  then have "buf = take p buf @ cstr buf p @ NUL # rest"
    by (metis append_take_drop_id)
  moreover have "length (take p buf) = p" using p by simp
  moreover have "NUL \<notin> set (cstr buf p)"
    by (auto simp: cstr_def dest: set_takeWhileD)
  ultimately show ?thesis using that by blast
qed

lemma preprocess_shape:
  assumes "NUL \<notin> set s" and "\<forall>c\<in>set ws. isspace c" and "length s + length ws < 2 ^ 31"
  shows "preprocess (s @ ws @ NUL # rest)
         = preprocess_loop (s @ ws @ NUL # rest) (int (length s) - 1)"
proof -
  from assms(1,2) have "NUL \<notin> set (s @ ws)"
    by (auto dest: isspace_not_NUL)
  from cstr_at0 [OF this] have "strlen (s @ ws @ NUL # rest) 0 = length s + length ws"
    by (simp add: strlen_def)
  moreover have "int_result (int (length s + length ws) - 1) = Inr (int (length s + length ws) - 1)"
    using assms(3) by (intro int_result_ok) (simp_all add: INT_MIN_def INT_MAX_def)
  ultimately have "preprocess (s @ ws @ NUL # rest)
      = preprocess_loop (s @ ws @ NUL # rest) (int (length s + length ws) - 1)"
    using assms(3) by (simp add: preprocess_def int_of_size_t_small)
  with preprocess_loop_skip [OF assms(2,3)] show ?thesis
    by simp
qed

lemma preprocess_loop_negative: "pos < 0 \<Longrightarrow> preprocess_loop str pos = Inr str"
  by (subst preprocess_loop.simps) simp

lemma preprocess_loop_at_last:
  assumes "s \<noteq> []" and "\<not> isspace (last s)"
  shows "preprocess_loop (s @ rest) (int (length s) - 1)
         = (if last s = CHR '';'' \<or> last s = CHR ''&'' then
              (case int_result (int (length s)) of
                 Inl f \<Rightarrow> Inl f
               | Inr i \<Rightarrow> store (s @ rest) (nat i) NUL)
            else
              (case int_result (int (length s)) of
                 Inl f \<Rightarrow> Inl f
               | Inr i \<Rightarrow>
                   (case store (s @ rest) (nat i) (CHR '';'') of
                      Inl f \<Rightarrow> Inl f
                    | Inr str' \<Rightarrow>
                        (case int_result (int (length s) + 1) of
                           Inl f \<Rightarrow> Inl f
                         | Inr j \<Rightarrow> store str' (nat j) NUL))))"
proof -
  from assms(1) have pos: "int (length s) - 1 \<ge> 0" and n: "nat (int (length s) - 1) = length s - 1"
    and n1: "int (length s) - 1 + 1 = int (length s)"
    and n2: "int (length s) - 1 + 2 = int (length s) + 1"
    by (cases s; simp)+
  from assms(1) have nth: "(s @ rest) ! (length s - 1) = last s"
    by (simp add: nth_append last_conv_nth)
  show ?thesis
    by (subst preprocess_loop.simps) (simp only: pos n n1 n2 nth assms(2) if_True not_False_eq_True)
qed

lemma preprocess_loop_last_terminator:
  assumes "s \<noteq> []" and "last s = CHR '';'' \<or> last s = CHR ''&''" and "length s < 2 ^ 31"
  shows "preprocess_loop (s @ rest) (int (length s) - 1) = store (s @ rest) (length s) NUL"
proof -
  from assms(2) have "\<not> isspace (last s)"
    by (auto simp: isspace_def)
  moreover have "int_result (int (length s)) = Inr (int (length s))"
    using assms(3) by (intro int_result_ok) (simp_all add: INT_MIN_def INT_MAX_def)
  ultimately show ?thesis
    using assms(2) by (simp add: preprocess_loop_at_last [OF assms(1)])
qed

lemma preprocess_loop_last_other:
  assumes "s \<noteq> []" and "\<not> isspace (last s)"
    and "last s \<noteq> CHR '';''" and "last s \<noteq> CHR ''&''"
  shows "preprocess_loop (s @ rest) (int (length s) - 1)
         = (if Suc (length s) < 2 ^ 31 then
              (case store (s @ rest) (length s) (CHR '';'') of
                 Inl f \<Rightarrow> Inl f
               | Inr str' \<Rightarrow> store str' (Suc (length s)) NUL)
            else if length s < 2 ^ 31 then
              (case store (s @ rest) (length s) (CHR '';'') of
                 Inl f \<Rightarrow> Inl f
               | Inr str' \<Rightarrow> Inl IntOverflow)
            else Inl IntOverflow)"
  using assms(3,4)
  by (auto simp: preprocess_loop_at_last [OF assms(1,2)] int_result_def INT_MIN_def INT_MAX_def
      nat_add_distrib split: sum.splits)

lemma update2_append:
  assumes "2 \<le> length rest"
  shows "(s @ rest)[length s := a, Suc (length s) := b] = s @ a # b # drop 2 rest"
proof -
  from assms obtain x y r where "rest = x # y # r"
    by (cases rest; cases "tl rest") auto
  then show ?thesis
    by (simp add: list_update_append)
qed

lemma split_trailing_space:
  obtains s ws where "t = s @ ws" and "\<forall>c\<in>set ws. isspace c"
    and "s = [] \<or> \<not> isspace (last s)"
proof -
  let ?ws = "rev (takeWhile isspace (rev t))" and ?s = "rev (dropWhile isspace (rev t))"
  have "t = ?s @ ?ws"
    by (metis rev_append rev_rev_ident takeWhile_dropWhile_id)
  moreover have "\<forall>c\<in>set ?ws. isspace c"
    by (auto dest: set_takeWhileD)
  moreover have "?s = [] \<or> \<not> isspace (last ?s)"
    by (metis hd_dropWhile last_rev rev_is_Nil_conv)
  ultimately show ?thesis by (rule that)
qed

lemma preprocess_fixed_terminator:
  assumes "NUL \<notin> set s" and "t = CHR '';'' \<or> t = CHR ''&''" and "Suc (length s) < 2 ^ 31"
  shows "preprocess (s @ t # NUL # rest) = Inr (s @ t # NUL # rest)"
proof -
  have t: "\<not> isspace t" "t \<noteq> NUL"
    using assms(2) by (auto simp: isspace_def NUL_def)
  have "preprocess ((s @ [t]) @ [] @ NUL # rest)
        = preprocess_loop ((s @ [t]) @ [] @ NUL # rest) (int (length (s @ [t])) - 1)"
    using assms(1,3) t by (intro preprocess_shape) auto
  also have "\<dots> = Inr (s @ t # NUL # rest)"
    using assms(2,3) preprocess_loop_last_terminator [of "s @ [t]" "NUL # rest"]
    by (auto simp: store_def list_update_append)
  finally show ?thesis by simp
qed

text \<open>
  Claim C3. A line that ends in whitespace and whose last character before that whitespace
  is neither \<open>;\<close> nor \<open>&\<close>: \<open>preprocess\<close> writes \<open>;\<close> and NUL right after that character, so
  the line becomes the text without its trailing whitespace followed by one \<open>;\<close>. The line
  is \<open>s @ ws\<close>, the buffer holds it with its NUL and whatever follows, and it is shorter
  than \<open>2 ^ 31\<close> bytes, where the \<open>int\<close> that holds its length is exact.
\<close>

theorem preprocess_trailing_whitespace:
  assumes "s \<noteq> []" and "\<not> isspace (last s)"
    and "last s \<noteq> CHR '';''" and "last s \<noteq> CHR ''&''"
    and "NUL \<notin> set s"
    and "ws \<noteq> []" and "\<forall>c\<in>set ws. isspace c"
    and "length s + length ws < 2 ^ 31"
  shows "preprocess (s @ ws @ NUL # rest)
           = Inr ((s @ ws @ NUL # rest)[length s := CHR '';'', Suc (length s) := NUL])
         \<and> cstr ((s @ ws @ NUL # rest)[length s := CHR '';'', Suc (length s) := NUL]) 0
           = s @ '';''"
proof -
  let ?buf = "s @ ws @ NUL # rest"
  from assms(6) obtain w ws' where ws: "ws = w # ws'"
    by (cases ws) auto
  have "preprocess ?buf = preprocess_loop (s @ (ws @ NUL # rest)) (int (length s) - 1)"
    using preprocess_shape [OF assms(5,7,8)] by simp
  also have "\<dots> = Inr (?buf[length s := CHR '';'', Suc (length s) := NUL])"
    using assms(8) ws by (simp add: preprocess_loop_last_other [OF assms(1,2,3,4)] store_def)
  finally have res: "preprocess ?buf = Inr (?buf[length s := CHR '';'', Suc (length s) := NUL])" .
  have eq: "?buf[length s := CHR '';'', Suc (length s) := NUL]
        = (s @ '';'') @ NUL # (drop 1 (ws' @ NUL # rest))"
    using ws by (cases ws') (simp_all add: list_update_append)
  have "NUL \<notin> set (s @ '';'')"
    using assms(5) by (simp add: NUL_def)
  then have "cstr (?buf[length s := CHR '';'', Suc (length s) := NUL]) 0 = s @ '';''"
    unfolding eq by (rule cstr_at0)
  with res show ?thesis by simp
qed

theorem preprocess_trailing_whitespace_witness:
  "preprocess (''ls  '' @ [NUL]) = Inr (''ls;'' @ [NUL, NUL])
   \<and> cstr (''ls;'' @ [NUL, NUL]) 0 = ''ls;''"
  using preprocess_trailing_whitespace [of "''ls''" "''  ''" "[]"]
  by (simp add: isspace_def NUL_def)

text \<open>
  Claim C4, as the code has it. A line whose last character before the trailing whitespace
  is \<open>;\<close> or \<open>&\<close>: \<open>preprocess\<close> writes NUL right after it and nothing else, so the line
  keeps its one terminator and loses the whitespace behind it. Whitespace in front of
  the terminator stays: \<open>ls &\<close> is left as it is.
\<close>

theorem preprocess_keeps_terminator:
  assumes "t = CHR '';'' \<or> t = CHR ''&''"
    and "NUL \<notin> set s"
    and "\<forall>c\<in>set ws. isspace c"
    and "length s + length ws + 1 < 2 ^ 31"
  shows "preprocess (s @ t # ws @ NUL # rest)
           = Inr ((s @ t # ws @ NUL # rest)[Suc (length s) := NUL])
         \<and> cstr ((s @ t # ws @ NUL # rest)[Suc (length s) := NUL]) 0 = s @ [t]"
proof -
  let ?buf = "s @ t # ws @ NUL # rest"
  have t: "\<not> isspace t" "t \<noteq> NUL"
    using assms(1) by (auto simp: isspace_def NUL_def)
  have "preprocess ((s @ [t]) @ ws @ NUL # rest)
        = preprocess_loop ((s @ [t]) @ ws @ NUL # rest) (int (length (s @ [t])) - 1)"
    using assms(2,3,4) t by (intro preprocess_shape) auto
  also have "\<dots> = Inr (?buf[Suc (length s) := NUL])"
    using assms(1,4) preprocess_loop_last_terminator [of "s @ [t]" "ws @ NUL # rest"]
    by (auto simp: store_def)
  finally have res: "preprocess ?buf = Inr (?buf[Suc (length s) := NUL])"
    by simp
  have eq: "?buf[Suc (length s) := NUL] = (s @ [t]) @ NUL # drop 1 (ws @ NUL # rest)"
    by (cases ws) (simp_all add: list_update_append)
  have "NUL \<notin> set (s @ [t])"
    using assms(2) t by simp
  then have "cstr (?buf[Suc (length s) := NUL]) 0 = s @ [t]"
    unfolding eq by (rule cstr_at0)
  with res show ?thesis by simp
qed

theorem preprocess_keeps_terminator_witness:
  "preprocess (''ls &\<newline>'' @ [NUL]) = Inr (''ls &'' @ [NUL, NUL])
   \<and> cstr (''ls &'' @ [NUL, NUL]) 0 = ''ls &''"
  using preprocess_keeps_terminator [of "CHR ''&''" "''ls ''" "''\<newline>''" "[]"]
  by (simp add: isspace_def NUL_def)

text \<open>The example of the claim: the blank between \<open>ls\<close> and \<open>&\<close> is not removed.\<close>

theorem ls_amp_counterexample:
  "preprocess (''ls &'' @ [NUL]) = Inr (''ls &'' @ [NUL])
   \<and> cstr (''ls &'' @ [NUL]) 0 \<noteq> ''ls&''"
  by code_simp

lemma preprocess_succeeds:
  assumes "terminated str 0" and "strlen str 0 + 1 < 2 ^ 31" and "strlen str 0 + 1 < length str"
  shows "\<exists>str'. preprocess str = Inr str'"
proof -
  from terminated_decomp [OF assms(1)] obtain pre w rest
    where "str = pre @ w @ NUL # rest" and "length pre = 0"
      and "NUL \<notin> set w" and "cstr str 0 = w"
    by blast
  then have str: "str = cstr str 0 @ NUL # rest" and nn: "NUL \<notin> set (cstr str 0)"
    by simp_all
  obtain s ws where t: "cstr str 0 = s @ ws" and ws: "\<forall>c\<in>set ws. isspace c"
    and s: "s = [] \<or> \<not> isspace (last s)"
    by (rule split_trailing_space)
  from nn t have nns: "NUL \<notin> set s" by simp
  from assms(2) t have len: "length s + length ws < 2 ^ 31" and len1: "Suc (length s) < 2 ^ 31"
    by (simp_all add: strlen_def)
  from assms(3) t have room: "Suc (length s) < length str"
    by (simp add: strlen_def)
  from str t have str2: "str = s @ ws @ NUL # rest" by simp
  have shape: "preprocess str = preprocess_loop (s @ (ws @ NUL # rest)) (int (length s) - 1)"
    using preprocess_shape [OF nns ws len, of rest] str2 by simp
  have room': "Suc (length s) < length (s @ ws @ NUL # rest)"
    using room str2 by simp
  show ?thesis
  proof (cases "s = []")
    case True
    with shape show ?thesis
      by (simp add: preprocess_loop_negative)
  next
    case False
    with s have nsp: "\<not> isspace (last s)" by simp
    show ?thesis
    proof (cases "last s = CHR '';'' \<or> last s = CHR ''&''")
      case True
      have "length s < 2 ^ 31" using len by simp
      from preprocess_loop_last_terminator [OF False True this, of "ws @ NUL # rest"] shape room'
      show ?thesis
        by (simp add: store_def)
    next
      case nt: False
      then have nt1: "last s \<noteq> CHR '';''" and nt2: "last s \<noteq> CHR ''&''" by simp_all
      from preprocess_loop_last_other [OF False nsp nt1 nt2, of "ws @ NUL # rest"] shape room' len1
      show ?thesis
        by (simp add: store_def)
    qed
  qed
qed

text \<open>
  Claim C9. Normalising twice is normalising once: when \<open>preprocess\<close> has turned the
  buffer \<open>str\<close> into \<open>str'\<close>, running it on \<open>str'\<close> leaves every byte as it is. The first
  run has a result when the line is shorter than \<open>2 ^ 31 - 1\<close> bytes and the buffer has a
  byte to spare behind the closing NUL (lemma \<open>preprocess_succeeds\<close>); a line on which it
  overflows \<open>pos + 2\<close> or writes behind the buffer has no normal form.
\<close>

theorem preprocess_idempotent:
  assumes "terminated str 0" and "strlen str 0 < 2 ^ 31" and "preprocess str = Inr str'"
  shows "preprocess str' = Inr str'"
proof -
  from terminated_decomp [OF assms(1)] obtain pre w rest
    where "str = pre @ w @ NUL # rest" and "length pre = 0"
      and "NUL \<notin> set w" and "cstr str 0 = w"
    by blast
  then have str: "str = cstr str 0 @ NUL # rest" and nn: "NUL \<notin> set (cstr str 0)"
    by simp_all
  obtain s ws where t: "cstr str 0 = s @ ws" and ws: "\<forall>c\<in>set ws. isspace c"
    and s: "s = [] \<or> \<not> isspace (last s)"
    by (rule split_trailing_space)
  from nn t have nns: "NUL \<notin> set s" by simp
  from assms(2) t have len: "length s + length ws < 2 ^ 31"
    by (simp add: strlen_def)
  from str t have str2: "str = s @ ws @ NUL # rest" by simp
  have shape: "preprocess str = preprocess_loop (s @ (ws @ NUL # rest)) (int (length s) - 1)"
    using preprocess_shape [OF nns ws len, of rest] str2 by simp
  show ?thesis
  proof (cases "s = []")
    case True
    with shape assms(3) str2 have "str' = str"
      by (simp add: preprocess_loop_negative)
    with assms(3) show ?thesis by simp
  next
    case False
    with s have nsp: "\<not> isspace (last s)" by simp
    show ?thesis
    proof (cases "last s = CHR '';'' \<or> last s = CHR ''&''")
      case True
      have "length s < 2 ^ 31" using len by simp
      from preprocess_loop_last_terminator [OF False True this, of "ws @ NUL # rest"]
        shape assms(3) str2
      have "str' = str[length s := NUL]"
        by (auto simp: store_def split: if_splits)
      with str2 have "str' = s @ NUL # drop 1 (ws @ NUL # rest)"
        by (cases ws) (simp_all add: list_update_append)
      then have "str' = butlast s @ last s # NUL # drop 1 (ws @ NUL # rest)"
        using False by simp
      moreover have "NUL \<notin> set (butlast s)" using nns by (auto dest: in_set_butlastD)
      moreover have "Suc (length (butlast s)) < 2 ^ 31" using len False by simp
      ultimately show ?thesis
        using True preprocess_fixed_terminator by metis
    next
      case nt: False
      then have nt1: "last s \<noteq> CHR '';''" and nt2: "last s \<noteq> CHR ''&''" by simp_all
      from preprocess_loop_last_other [OF False nsp nt1 nt2, of "ws @ NUL # rest"]
        shape assms(3) str2
      have fits: "Suc (length s) < 2 ^ 31"
        and bound: "Suc (length s) < length str"
        and res: "str' = str[length s := CHR '';'', Suc (length s) := NUL]"
        by (auto simp: store_def split: if_splits sum.splits)
      have "length str = length s + length (ws @ NUL # rest)"
        by (subst str2) (simp only: length_append)
      with bound have "2 \<le> length (ws @ NUL # rest)" by linarith
      from update2_append [OF this] res str2
      have "str' = s @ CHR '';'' # NUL # drop 2 (ws @ NUL # rest)"
        by simp
      then show ?thesis
        using nns fits preprocess_fixed_terminator by metis
    qed
  qed
qed

theorem preprocess_idempotent_witness:
  "preprocess (''ls  \<newline>'' @ [NUL]) = Inr (''ls;'' @ NUL # ''\<newline>'' @ [NUL])
   \<and> preprocess (''ls;'' @ NUL # ''\<newline>'' @ [NUL]) = Inr (''ls;'' @ NUL # ''\<newline>'' @ [NUL])"
proof -
  have a: "terminated (''ls  \<newline>'' @ [NUL]) 0"
    by code_simp
  have b: "strlen (''ls  \<newline>'' @ [NUL]) 0 < 2 ^ 31"
    by (simp add: strlen_def cstr_def NUL_def)
  have c: "preprocess (''ls  \<newline>'' @ [NUL]) = Inr (''ls;'' @ NUL # ''\<newline>'' @ [NUL])"
    by code_simp
  from preprocess_idempotent [OF a b c] c show ?thesis
    by simp
qed

section \<open>Properties of the tokenizer\<close>

lemma cstr_shape: "NUL \<notin> set w \<Longrightarrow> length pre = t \<Longrightarrow> cstr (pre @ w @ NUL # post) t = w"
  using cstr_at [of w pre post] by simp

lemma terminated_shape: "NUL \<notin> set w \<Longrightarrow> length pre = t \<Longrightarrow> terminated (pre @ w @ NUL # post) t"
  by (simp add: terminated_def strlen_def cstr_shape)

lemma cstr_cong:
  assumes tm: "terminated buf t" and len: "length buf' = length buf"
    and same: "\<And>i. t \<le> i \<Longrightarrow> i \<le> t + strlen buf t \<Longrightarrow> buf' ! i = buf ! i"
  shows "cstr buf' t = cstr buf t" and "terminated buf' t"
proof -
  from terminated_decomp [OF tm] obtain pre w post
    where buf: "buf = pre @ w @ NUL # post" and t: "length pre = t"
      and nn: "NUL \<notin> set w" and w: "cstr buf t = w"
    by blast
  have n: "t + length w < length buf"
    using t by (simp add: buf)
  have at: "buf ! (t + i) = (w @ [NUL]) ! i" if "i \<le> length w" for i
    using that t by (auto simp: buf nth_append)
  have "take (Suc (length w)) (drop t buf') = w @ [NUL]"
  proof (rule nth_equalityI)
    show "length (take (Suc (length w)) (drop t buf')) = length (w @ [NUL])"
      using n len by simp
  next
    fix i assume "i < length (take (Suc (length w)) (drop t buf'))"
    then have i: "i \<le> length w" by simp
    with n len have "take (Suc (length w)) (drop t buf') ! i = buf' ! (t + i)"
      by simp
    also have "\<dots> = buf ! (t + i)"
      using i w by (intro same) (simp_all add: strlen_def)
    also have "\<dots> = (w @ [NUL]) ! i"
      using i by (rule at)
    finally show "take (Suc (length w)) (drop t buf') ! i = (w @ [NUL]) ! i" .
  qed
  then have "drop t buf' = (w @ [NUL]) @ drop (Suc (length w)) (drop t buf')"
    by (metis append_take_drop_id)
  then have "buf' = take t buf' @ w @ NUL # drop (Suc (length w)) (drop t buf')"
    by (metis append_take_drop_id append_assoc append_Cons append_Nil)
  moreover have "length (take t buf') = t"
    using n len by simp
  ultimately have "cstr buf' t = w" and "terminated buf' t"
    using cstr_shape [OF nn] terminated_shape [OF nn] by metis+
  with w show "cstr buf' t = cstr buf t" and "terminated buf' t"
    by simp_all
qed

lemma frame_refl: "frame lo hi buf buf"
  by (simp add: frame_def)

lemma frame_trans:
  "frame lo hi a b \<Longrightarrow> frame lo' hi' b c \<Longrightarrow> lo \<le> lo' \<Longrightarrow> hi' \<le> hi \<Longrightarrow> frame lo hi a c"
  unfolding frame_def by (metis le_trans less_le_trans)

lemma frame_length: "frame lo hi buf buf' \<Longrightarrow> length buf' = length buf"
  by (simp add: frame_def)

lemma frame_nospace:
  assumes "frame lo hi buf buf'" and "terminated buf t" and "CHR '' '' \<notin> set (cstr buf t)"
  shows "cstr buf' t = cstr buf t" and "terminated buf' t"
proof -
  from terminated_decomp [OF assms(2)] obtain pre w post
    where buf: "buf = pre @ w @ NUL # post" and t: "length pre = t"
      and w: "cstr buf t = w"
    by blast
  have n: "t + length w < length buf"
    using t by (simp add: buf)
  have same: "buf' ! i = buf ! i" if "t \<le> i" and "i \<le> t + strlen buf t" for i
  proof -
    from that w obtain j where j: "i = t + j" "j \<le> length w"
      by (metis le_Suc_ex nat_add_left_cancel_le strlen_def)
    have eq: "buf ! i = (w @ [NUL]) ! j"
      using j t by (auto simp: buf nth_append)
    have nsp: "CHR '' '' \<notin> set w"
      using assms(3) w by simp
    have "buf ! i \<noteq> CHR '' ''"
    proof (cases "j = length w")
      case True
      with eq show ?thesis by (simp add: NUL_def)
    next
      case False
      with j have lt: "j < length w" by simp
      with eq have "buf ! i = w ! j" by (simp add: nth_append)
      with nth_mem [OF lt] nsp show ?thesis by metis
    qed
    moreover have "i < length buf" using j n by simp
    ultimately show ?thesis
      using assms(1) unfolding frame_def by blast
  qed
  from cstr_cong [OF assms(2) frame_length [OF assms(1)] same]
  show "cstr buf' t = cstr buf t" and "terminated buf' t" by simp_all
qed

lemma frame_outside:
  assumes "frame lo hi buf buf'" and "terminated buf t" and "hi \<le> t \<or> t + strlen buf t < lo"
  shows "cstr buf' t = cstr buf t" and "terminated buf' t"
proof -
  have n: "t + strlen buf t < length buf"
    using assms(2) by (simp add: terminated_def)
  have same: "buf' ! i = buf ! i" if "t \<le> i" and "i \<le> t + strlen buf t" for i
  proof -
    from that n have "i < length buf" by simp
    moreover from that assms(3) have "\<not> (lo \<le> i \<and> i < hi)" by auto
    ultimately show ?thesis
      using assms(1) unfolding frame_def by blast
  qed
  from cstr_cong [OF assms(2) frame_length [OF assms(1)] same]
  show "cstr buf' t = cstr buf t" and "terminated buf' t" by simp_all
qed

lemma takeWhile_exact: "\<forall>x\<in>set xs. P x \<Longrightarrow> \<not> P y \<Longrightarrow> takeWhile P (xs @ y # ys) = xs"
  by (induction xs) auto

lemma strtok_r_none:
  assumes "\<forall>c\<in>set sps. c = CHR '' ''"
  shows "strtok_r (pre @ sps @ NUL # post) (length pre) '' ''
         = (pre @ sps @ NUL # post, None, length pre + length sps)"
proof -
  have "takeWhile (\<lambda>c. c \<in> set '' '') (sps @ NUL # post) = sps"
    using assms by (intro takeWhile_exact) (auto simp: NUL_def)
  then have "strspn (pre @ sps @ NUL # post) (length pre) '' '' = length sps"
    by (simp add: strspn_def)
  moreover have "(pre @ sps @ NUL # post) ! (length pre + length sps) = NUL"
    by (simp add: nth_append)
  ultimately show ?thesis
    by (simp add: strtok_r_def Let_def)
qed

lemma strtok_r_token:
  assumes sps: "\<forall>c\<in>set sps. c = CHR '' ''" and ne: "tok \<noteq> []"
    and tok: "\<forall>c\<in>set tok. c \<noteq> CHR '' '' \<and> c \<noteq> NUL"
    and d: "d = NUL \<or> d = CHR '' ''"
  shows "strtok_r (pre @ sps @ tok @ d # post) (length pre) '' ''
         = (if d = NUL
            then (pre @ sps @ tok @ d # post, Some (length pre + length sps),
                  length pre + length sps + length tok)
            else (pre @ sps @ tok @ NUL # post, Some (length pre + length sps),
                  length pre + length sps + length tok + 1))"
proof -
  let ?buf = "pre @ sps @ tok @ d # post"
  from ne obtain c tok' where ctok: "tok = c # tok'" by (cases tok) auto
  with tok have c: "c \<noteq> CHR '' ''" "c \<noteq> NUL" by auto
  have "takeWhile (\<lambda>c. c \<in> set '' '') (sps @ c # tok' @ d # post) = sps"
    using sps c by (intro takeWhile_exact) auto
  then have spn: "strspn ?buf (length pre) '' '' = length sps"
    by (simp add: strspn_def ctok)
  have s1: "?buf ! (length pre + length sps) = c"
    by (simp add: nth_append ctok)
  have "drop (length pre + length sps) ?buf = tok @ d # post"
    by (simp add: drop_append)
  moreover have "takeWhile (\<lambda>c. c \<noteq> NUL \<and> c \<notin> set '' '') (tok @ d # post) = tok"
    using tok d by (intro takeWhile_exact) auto
  ultimately have cspn: "strcspn ?buf (length pre + length sps) '' '' = length tok"
    by (simp add: strcspn_def)
  have e: "?buf ! (length pre + length sps + length tok) = d"
    by (simp add: nth_append)
  have upd: "?buf[length pre + length sps + length tok := NUL] = pre @ sps @ tok @ NUL # post"
    by (simp add: list_update_append)
  show ?thesis
    unfolding strtok_r_def Let_def spn s1 cspn e upd
    using c by simp
qed

lemma spec_split_Nil: "spec_split sep [] = []"
  by (subst spec_split.simps) simp

lemma spec_split_sep:
  assumes "\<forall>c\<in>set sps. sep c"
  shows "spec_split sep (sps @ s) = spec_split sep s"
proof -
  have "dropWhile sep (sps @ s) = dropWhile sep s"
    using assms by (induction sps) auto
  then show ?thesis
    by (subst spec_split.simps, subst (2) spec_split.simps) simp
qed

lemma spec_split_token:
  assumes "tok \<noteq> []" and "\<forall>c\<in>set tok. \<not> sep c" and "r = [] \<or> sep (hd r)"
  shows "spec_split sep (tok @ r) = tok # spec_split sep r"
proof -
  from assms(1) obtain c tok' where ctok: "tok = c # tok'" by (cases tok) auto
  with assms(2) have "\<not> sep c" by simp
  then have dw: "dropWhile sep (tok @ r) = tok @ r"
    by (simp add: ctok)
  have tw: "takeWhile (\<lambda>x. \<not> sep x) (tok @ r) = tok"
  proof (cases r)
    case Nil
    with assms(2) show ?thesis by simp
  next
    case (Cons d r')
    with assms(3) have "sep d" by simp
    with assms(2) Cons show ?thesis
      by (simp add: takeWhile_exact)
  qed
  have dw2: "dropWhile (\<lambda>x. \<not> sep x) (tok @ r) = r"
  proof (cases r)
    case Nil
    with assms(2) show ?thesis by simp
  next
    case (Cons d r')
    with assms(3) have "sep d" by simp
    with assms(2) Cons show ?thesis
      by (simp add: dropWhile_append2)
  qed
  have "spec_split sep (tok @ r)
        = (case tok @ r of
             [] \<Rightarrow> []
           | c # w \<Rightarrow> takeWhile (\<lambda>x. \<not> sep x) (c # w)
                      # spec_split sep (dropWhile (\<lambda>x. \<not> sep x) (c # w)))"
    by (subst spec_split.simps) (simp only: dw)
  also have "\<dots> = takeWhile (\<lambda>x. \<not> sep x) (tok @ r)
                    # spec_split sep (dropWhile (\<lambda>x. \<not> sep x) (tok @ r))"
    by (simp add: ctok)
  also have "\<dots> = tok # spec_split sep r"
    by (simp only: tw dw2)
  finally show ?thesis .
qed

lemma blank_cases:
  assumes "NUL \<notin> set text"
  obtains (none) "\<forall>c\<in>set text. c = CHR '' ''"
  | (last) sps tok where "text = sps @ tok" and "\<forall>c\<in>set sps. c = CHR '' ''"
      and "tok \<noteq> []" and "\<forall>c\<in>set tok. c \<noteq> CHR '' '' \<and> c \<noteq> NUL"
  | (cut) sps tok rest where "text = sps @ tok @ CHR '' '' # rest"
      and "\<forall>c\<in>set sps. c = CHR '' ''"
      and "tok \<noteq> []" and "\<forall>c\<in>set tok. c \<noteq> CHR '' '' \<and> c \<noteq> NUL"
      and "NUL \<notin> set rest"
proof -
  define sps where "sps = takeWhile (\<lambda>c. c = CHR '' '') text"
  define w where "w = dropWhile (\<lambda>c. c = CHR '' '') text"
  define tok where "tok = takeWhile (\<lambda>c. c \<noteq> CHR '' '') w"
  define r where "r = dropWhile (\<lambda>c. c \<noteq> CHR '' '') w"
  have tx: "sps @ w = text"
    unfolding sps_def w_def by (rule takeWhile_dropWhile_id)
  have wr: "tok @ r = w"
    unfolding tok_def r_def by (rule takeWhile_dropWhile_id)
  have sps: "\<forall>c\<in>set sps. c = CHR '' ''"
    unfolding sps_def by (auto dest: set_takeWhileD)
  have hdw: "w \<noteq> [] \<Longrightarrow> hd w \<noteq> CHR '' ''"
    unfolding w_def by (drule hd_dropWhile) simp
  have hdr: "r \<noteq> [] \<Longrightarrow> hd r = CHR '' ''"
    unfolding r_def by (drule hd_dropWhile) simp
  have tokset: "\<forall>c\<in>set tok. c \<noteq> CHR '' ''"
    unfolding tok_def by (auto dest: set_takeWhileD)
  have sub: "set tok \<subseteq> set text" "set r \<subseteq> set text"
    using tx [symmetric] wr [symmetric] by auto
  show ?thesis
  proof (cases w)
    case Nil
    with tx sps have "\<forall>c\<in>set text. c = CHR '' ''" by auto
    then show ?thesis by (rule none)
  next
    case (Cons c w')
    with hdw have "c \<noteq> CHR '' ''" by simp
    with Cons have tokne: "tok \<noteq> []"
      unfolding tok_def by simp
    from sub(1) assms tokset have tok: "\<forall>c\<in>set tok. c \<noteq> CHR '' '' \<and> c \<noteq> NUL"
      by auto
    show ?thesis
    proof (cases r)
      case Nil
      with tx wr have "text = sps @ tok" by auto
      then show ?thesis using sps tokne tok by (rule last)
    next
      case (Cons d rest)
      with hdr have "d = CHR '' ''" by simp
      with tx wr Cons have t: "text = sps @ tok @ CHR '' '' # rest"
        by auto
      moreover from sub(2) assms Cons have "NUL \<notin> set rest"
        by auto
      ultimately show ?thesis using sps tokne tok by (intro cut)
    qed
  qed
qed

lemma frame_update:
  "lo \<le> e \<Longrightarrow> e < hi \<Longrightarrow> buf ! e = CHR '' '' \<Longrightarrow> frame lo hi buf (buf[e := NUL])"
  by (cases "e < length buf") (auto simp: frame_def nth_list_update)

lemma strtok_r_spec:
  assumes "terminated buf line" and "strtok_r buf line '' '' = (buf1, token1, line1)"
  shows "frame line (line + strlen buf line) buf buf1"
    and "terminated buf1 line1"
    and "line \<le> line1" and "line1 + strlen buf1 line1 \<le> line + strlen buf line"
    and "spec_split (\<lambda>c. c = CHR '' '') (cstr buf line)
         = (case token1 of
              None \<Rightarrow> []
            | Some t \<Rightarrow> cstr buf1 t # spec_split (\<lambda>c. c = CHR '' '') (cstr buf1 line1))"
    and "\<forall>t. token1 = Some t \<longrightarrow> terminated buf1 t \<and> CHR '' '' \<notin> set (cstr buf1 t)"
proof -
  from terminated_decomp [OF assms(1)] obtain pre body post
    where buf: "buf = pre @ body @ NUL # post" and pre: "length pre = line"
      and nn: "NUL \<notin> set body" and tx: "cstr buf line = body"
    by blast
  have len: "strlen buf line = length body"
    by (simp add: strlen_def tx)
  have goal: "frame line (line + strlen buf line) buf buf1
    \<and> terminated buf1 line1
    \<and> line \<le> line1 \<and> line1 + strlen buf1 line1 \<le> line + strlen buf line
    \<and> spec_split (\<lambda>c. c = CHR '' '') (cstr buf line)
         = (case token1 of
              None \<Rightarrow> []
            | Some t \<Rightarrow> cstr buf1 t # spec_split (\<lambda>c. c = CHR '' '') (cstr buf1 line1))
    \<and> (\<forall>t. token1 = Some t \<longrightarrow> terminated buf1 t \<and> CHR '' '' \<notin> set (cstr buf1 t))"
  using nn
  proof (cases rule: blank_cases)
    case none
    from strtok_r_none [OF none, of pre post] assms(2) buf pre
    have r: "buf1 = buf" "token1 = None" "line1 = line + length body"
      by simp_all
    have "cstr buf line1 = []" and "terminated buf line1"
      using cstr_shape [of "[]" "pre @ body" line1 post] terminated_shape [of "[]" "pre @ body" line1 post]
        r pre by (simp_all add: buf)
    moreover have "spec_split (\<lambda>c. c = CHR '' '') body = []"
      using spec_split_sep [of body "\<lambda>c. c = CHR '' ''" "[]"] none
      by (simp add: spec_split_Nil)
    ultimately show ?thesis
      using r by (simp add: frame_refl tx len strlen_def)
  next
    case (last sps tok)
    from strtok_r_token [OF last(2,3,4), of NUL pre post] assms(2) buf pre last(1)
    have r: "buf1 = buf" "token1 = Some (line + length sps)"
      "line1 = line + length sps + length tok"
      by simp_all
    have "cstr buf line1 = []" and "terminated buf line1"
      using cstr_shape [of "[]" "pre @ body" line1 post] terminated_shape [of "[]" "pre @ body" line1 post]
        r pre last(1) by (simp_all add: buf)
    moreover have nnt: "NUL \<notin> set tok" using last(4) by auto
    have "cstr buf (line + length sps) = tok" and "terminated buf (line + length sps)"
      using cstr_shape [OF nnt, of "pre @ sps" "line + length sps" post]
        terminated_shape [OF nnt, of "pre @ sps" "line + length sps" post] pre last(1)
      by (simp_all add: buf)
    moreover have "spec_split (\<lambda>c. c = CHR '' '') body = [tok]"
      using spec_split_sep [of sps "\<lambda>c. c = CHR '' ''" tok] last
        spec_split_token [of tok "\<lambda>c. c = CHR '' ''" "[]"]
      by (simp add: spec_split_Nil)
    ultimately show ?thesis
      using r last by (auto simp: frame_refl tx len strlen_def spec_split_Nil)
  next
    case (cut sps tok rest)
    let ?e = "line + length sps + length tok"
    let ?b1 = "pre @ sps @ tok @ NUL # rest @ NUL # post"
    from strtok_r_token [OF cut(2,3,4), of "CHR '' ''" pre "rest @ NUL # post"] assms(2) buf pre cut(1)
    have r: "buf1 = ?b1" "token1 = Some (line + length sps)" "line1 = ?e + 1"
      by (simp_all add: NUL_def)
    have e: "buf ! ?e = CHR '' ''"
      using pre cut(1) by (simp add: buf nth_append)
    have "?b1 = buf[?e := NUL]"
      using pre cut(1) by (simp add: buf list_update_append)
    with frame_update [OF _ _ e, of line "line + length body"] cut(1)
    have fr: "frame line (line + length body) buf ?b1"
      by simp
    have "cstr ?b1 line1 = rest" and "terminated ?b1 line1"
      using cstr_shape [OF cut(5), of "pre @ sps @ tok @ [NUL]" line1 post]
        terminated_shape [OF cut(5), of "pre @ sps @ tok @ [NUL]" line1 post] r pre
      by simp_all
    moreover have nnt: "NUL \<notin> set tok" using cut(4) by auto
    have "cstr ?b1 (line + length sps) = tok" and "terminated ?b1 (line + length sps)"
      using cstr_shape [OF nnt, of "pre @ sps" "line + length sps" "rest @ NUL # post"]
        terminated_shape [OF nnt, of "pre @ sps" "line + length sps" "rest @ NUL # post"] pre
      by simp_all
    moreover have "spec_split (\<lambda>c. c = CHR '' '') body
                   = tok # spec_split (\<lambda>c. c = CHR '' '') rest"
      using spec_split_sep [of sps "\<lambda>c. c = CHR '' ''" "tok @ CHR '' '' # rest"] cut
        spec_split_token [of tok "\<lambda>c. c = CHR '' ''" "CHR '' '' # rest"]
        spec_split_sep [of "'' ''" "\<lambda>c. c = CHR '' ''" rest]
      by simp
    ultimately show ?thesis
      using r cut fr by (auto simp: tx len strlen_def)
  qed
  from goal show "frame line (line + strlen buf line) buf buf1"
    and "terminated buf1 line1"
    and "line \<le> line1" and "line1 + strlen buf1 line1 \<le> line + strlen buf line"
    and "spec_split (\<lambda>c. c = CHR '' '') (cstr buf line)
         = (case token1 of
              None \<Rightarrow> []
            | Some t \<Rightarrow> cstr buf1 t # spec_split (\<lambda>c. c = CHR '' '') (cstr buf1 line1))"
    and "\<forall>t. token1 = Some t \<longrightarrow> terminated buf1 t \<and> CHR '' '' \<notin> set (cstr buf1 t)"
    by blast+
qed

lemma tokenize_loop_spec:
  assumes "tokenize_loop buf line tokens size' token = (buf', tokens', n)"
    and "terminated buf line"
    and "\<forall>t. token = Some t \<longrightarrow> terminated buf t \<and> CHR '' '' \<notin> set (cstr buf t)"
    and "MAX_ARGS \<le> length tokens"
  shows "frame line (line + strlen buf line) buf buf'
       \<and> length tokens' = length tokens
       \<and> take size' tokens' = take size' tokens
       \<and> n = size' + length (take (MAX_ARGS - size')
               (case token of
                  None \<Rightarrow> []
                | Some t \<Rightarrow> cstr buf t # spec_split (\<lambda>c. c = CHR '' '') (cstr buf line)))
       \<and> read_argv buf' (drop size' (take n tokens'))
           = take (MAX_ARGS - size')
               (case token of
                  None \<Rightarrow> []
                | Some t \<Rightarrow> cstr buf t # spec_split (\<lambda>c. c = CHR '' '') (cstr buf line))"
  using assms
proof (induction buf line tokens size' token rule: tokenize_loop.induct)
  case (1 buf line tokens size' token)
  show ?case
  proof (cases token)
    case None
    with "1.prems"(1) have "buf' = buf" "tokens' = tokens" "n = size'"
      by (simp_all add: tokenize_loop.simps)
    with None show ?thesis
      by (simp add: frame_refl)
  next
    case (Some t)
    show ?thesis
    proof (cases "size' < MAX_ARGS")
      case False
      with Some "1.prems"(1) have "buf' = buf" "tokens' = tokens" "n = size'"
        by (simp_all add: tokenize_loop.simps)
      with Some False show ?thesis
        by (simp add: frame_refl)
    next
      case True
      let ?ws = "spec_split (\<lambda>c. c = CHR '' '') (cstr buf line)"
      obtain b k l where st: "strtok_r buf line '' '' = (b, k, l)"
        by (cases "strtok_r buf line '' ''") auto
      from "1.prems"(1) Some True st
      have rec: "tokenize_loop b l (tokens[size' := Some t]) (size' + 1) k = (buf', tokens', n)"
        by (simp add: tokenize_loop.simps [of buf])
      note sp = strtok_r_spec [OF "1.prems"(2) st]
      from "1.prems"(4) have len': "MAX_ARGS \<le> length (tokens[size' := Some t])"
        by simp
      have ws1: "(case k of None \<Rightarrow> []
                  | Some t1 \<Rightarrow> cstr b t1 # spec_split (\<lambda>c. c = CHR '' '') (cstr b l)) = ?ws"
        using sp(5) by simp
      from "1.IH" [OF Some True st [symmetric] refl rec sp(2) sp(6) len']
      have "frame l (l + strlen b l) b buf'
        \<and> length tokens' = length (tokens[size' := Some t])
        \<and> take (size' + 1) tokens' = take (size' + 1) (tokens[size' := Some t])
        \<and> n = size' + 1 + length (take (MAX_ARGS - (size' + 1)) ?ws)
        \<and> read_argv buf' (drop (size' + 1) (take n tokens'))
           = take (MAX_ARGS - (size' + 1)) ?ws"
        unfolding ws1 .
      then have fr2: "frame l (l + strlen b l) b buf'"
        and lt: "length tokens' = length (tokens[size' := Some t])"
        and tk: "take (size' + 1) tokens' = take (size' + 1) (tokens[size' := Some t])"
        and n: "n = size' + 1 + length (take (MAX_ARGS - (size' + 1)) ?ws)"
        and ra: "read_argv buf' (drop (size' + 1) (take n tokens'))
                 = take (MAX_ARGS - (size' + 1)) ?ws"
        by blast+
      have fr: "frame line (line + strlen buf line) buf buf'"
        using frame_trans [OF sp(1) fr2 sp(3) sp(4)] .
      from "1.prems"(3) Some have t: "terminated buf t" "CHR '' '' \<notin> set (cstr buf t)"
        by simp_all
      from frame_nospace [OF fr t] have ct: "cstr buf' t = cstr buf t" 
        by simp
      have "take size' (take (size' + 1) tokens')
            = take size' (take (size' + 1) (tokens[size' := Some t]))"
        using tk by simp
      then have tk0: "take size' tokens' = take size' tokens"
        by (simp add: min_def)
      from True "1.prems"(4) have sl: "size' < length tokens"
        by simp
      have "take (size' + 1) tokens' ! size' = take (size' + 1) (tokens[size' := Some t]) ! size'"
        using tk by simp
      with sl have at: "tokens' ! size' = Some t"
        by simp
      have nle: "n \<le> length tokens'" and sn: "size' < n"
        using n True "1.prems"(4) lt by simp_all
      then have "drop size' (take n tokens') = Some t # drop (size' + 1) (take n tokens')"
        using at by (simp add: Cons_nth_drop_Suc [symmetric])
      then have "read_argv buf' (drop size' (take n tokens'))
                 = cstr buf t # take (MAX_ARGS - (size' + 1)) ?ws"
        using ra ct by simp
      moreover from True have "MAX_ARGS - size' = Suc (MAX_ARGS - (size' + 1))"
        by simp
      ultimately show ?thesis
        using fr lt tk0 n Some by simp
    qed
  qed
qed

lemma read_argv_all:
  "length (read_argv buf ts) = length ts
   \<Longrightarrow> i < length ts \<Longrightarrow> \<exists>p. ts ! i = Some p \<and> cstr buf p = read_argv buf ts ! i"
proof (induction buf ts arbitrary: i rule: read_argv.induct)
  case (1 buf)
  then show ?case by simp
next
  case (2 buf ts)
  then show ?case by simp
next
  case (3 buf t ts)
  then show ?case by (cases i) auto
qed

lemma read_argv_sentinel:
  "length (read_argv buf ts) = length ts
   \<Longrightarrow> read_argv buf (ts @ None # rest) = read_argv buf ts"
proof (induction buf ts rule: read_argv.induct)
  case (1 buf)
  then show ?case by simp
next
  case (2 buf ts)
  then show ?case by simp
next
  case (3 buf t ts)
  then show ?case by simp
qed

lemma tokens_for_spec:
  assumes "terminated buf line" and "tokens_for buf line = (buf', tokens, n)"
  shows "frame line (line + strlen buf line) buf buf'"
    and "length tokens = MAX_ARGS"
    and "n = length (take MAX_ARGS (spec_split (\<lambda>c. c = CHR '' '') (cstr buf line)))"
    and "read_argv buf' (take n tokens)
         = take MAX_ARGS (spec_split (\<lambda>c. c = CHR '' '') (cstr buf line))"
proof -
  obtain b k l where st: "strtok_r buf line '' '' = (b, k, l)"
    by (cases "strtok_r buf line '' ''") auto
  with assms(2) have loop: "tokenize_loop b l (replicate MAX_ARGS None) 0 k = (buf', tokens, n)"
    by (simp add: tokens_for_def)
  note sp = strtok_r_spec [OF assms(1) st]
  have len: "MAX_ARGS \<le> length (replicate MAX_ARGS (None :: ptr option))"
    by simp
  let ?ws = "spec_split (\<lambda>c. c = CHR '' '') (cstr buf line)"
  from tokenize_loop_spec [OF loop sp(2) sp(6) len]
  have fr2: "frame l (l + strlen b l) b buf'"
    and lt: "length tokens = length (replicate MAX_ARGS (None :: ptr option))"
    and n: "n = 0 + length (take (MAX_ARGS - 0) ?ws)"
    and ra: "read_argv buf' (drop 0 (take n tokens)) = take (MAX_ARGS - 0) ?ws"
    unfolding sp(5) [symmetric] by blast+
  show "frame line (line + strlen buf line) buf buf'"
    using frame_trans [OF sp(1) fr2 sp(3) sp(4)] .
  show "length tokens = MAX_ARGS"
    using lt by simp
  show "n = length (take MAX_ARGS ?ws)"
    using n by simp
  show "read_argv buf' (take n tokens) = take MAX_ARGS ?ws"
    using ra by simp
qed

lemma tokenize_too_many:
  assumes "terminated buf line"
    and "MAX_ARGS \<le> length (spec_split (\<lambda>c. c = CHR '' '') (cstr buf line))"
  shows "tokenize buf line = Inl OutOfBounds"
proof -
  obtain buf' tokens n where tf: "tokens_for buf line = (buf', tokens, n)"
    by (cases "tokens_for buf line") auto
  from tokens_for_spec(2,3) [OF assms(1) tf] assms(2) have "n = length tokens"
    by simp
  with tf show ?thesis
    by (simp add: tokenize_def store_def)
qed

lemma tokenize_spec:
  assumes "terminated buf line"
    and "length (spec_split (\<lambda>c. c = CHR '' '') (cstr buf line)) < MAX_ARGS"
  obtains buf' tokens
  where "tokenize buf line
         = Inr (buf', tokens, length (spec_split (\<lambda>c. c = CHR '' '') (cstr buf line)))"
    and "frame line (line + strlen buf line) buf buf'"
    and "read_argv buf' tokens = spec_split (\<lambda>c. c = CHR '' '') (cstr buf line)"
    and "\<And>i. i < length (spec_split (\<lambda>c. c = CHR '' '') (cstr buf line))
          \<Longrightarrow> \<exists>p. tokens ! i = Some p
                  \<and> cstr buf' p = spec_split (\<lambda>c. c = CHR '' '') (cstr buf line) ! i"
    and "tokens ! length (spec_split (\<lambda>c. c = CHR '' '') (cstr buf line)) = None"
proof -
  let ?ws = "spec_split (\<lambda>c. c = CHR '' '') (cstr buf line)"
  obtain buf' tokens n where tf: "tokens_for buf line = (buf', tokens, n)"
    by (cases "tokens_for buf line") auto
  note tfs = tokens_for_spec [OF assms(1) tf]
  from tfs(3) assms(2) have n: "n = length ?ws" by simp
  from tfs(4) assms(2) have ra: "read_argv buf' (take n tokens) = ?ws" by simp
  from n tfs(2) assms(2) have nl: "n < length tokens" by simp
  then have upd: "tokens[n := None] = take n tokens @ None # drop (Suc n) tokens"
    by (rule upd_conv_take_nth_drop)
  have full: "length (read_argv buf' (take n tokens)) = length (take n tokens)"
    using ra n nl by simp
  have 1: "tokenize buf line = Inr (buf', tokens[n := None], length ?ws)"
    using tf nl n by (simp add: tokenize_def store_def)
  have 3: "read_argv buf' (tokens[n := None]) = ?ws"
    unfolding upd using read_argv_sentinel [OF full] ra by simp
  have 4: "\<exists>p. tokens[n := None] ! i = Some p \<and> cstr buf' p = ?ws ! i" if "i < length ?ws" for i
  proof -
    from that n nl have i: "i < length (take n tokens)" by simp
    from read_argv_all [OF full i] ra have "\<exists>p. take n tokens ! i = Some p \<and> cstr buf' p = ?ws ! i"
      by simp
    moreover from that n have "tokens[n := None] ! i = take n tokens ! i"
      by simp
    ultimately show ?thesis by simp
  qed
  have 5: "tokens[n := None] ! length ?ws = None"
    using n nl by simp
  from 1 tfs(1) 3 4 5 show ?thesis by (rule that)
qed

lemma spec_split_tokens:
  "w \<in> set (spec_split sep s) \<Longrightarrow> w \<noteq> [] \<and> (\<forall>c\<in>set w. \<not> sep c)"
proof (induction sep s rule: spec_split.induct)
  case (1 sep s)
  show ?case
  proof (cases "dropWhile sep s")
    case Nil
    with "1.prems" show ?thesis
      by (subst (asm) spec_split.simps) simp
  next
    case (Cons c w')
    have c: "\<not> sep c"
      using hd_dropWhile [of sep s] Cons by simp
    from "1.prems" Cons
    have "w = takeWhile (\<lambda>x. \<not> sep x) (c # w')
          \<or> w \<in> set (spec_split sep (dropWhile (\<lambda>x. \<not> sep x) (c # w')))"
      by (subst (asm) spec_split.simps) (simp del: takeWhile.simps dropWhile.simps)
    then show ?thesis
    proof
      assume w: "w = takeWhile (\<lambda>x. \<not> sep x) (c # w')"
      with c have "w \<noteq> []" by simp
      moreover from w have "\<forall>x\<in>set w. \<not> sep x"
        by (auto dest: set_takeWhileD simp del: takeWhile.simps)
      ultimately show ?thesis by simp
    next
      assume "w \<in> set (spec_split sep (dropWhile (\<lambda>x. \<not> sep x) (c # w')))"
      with "1.IH" [OF Cons] show ?thesis .
    qed
  qed
qed

text \<open>
  Claim C5, as the code has it. The delimiter handed to \<open>strtok_r\<close> is the blank alone,
  so the loop of \<open>exec_command\<close> cuts the job's text at blanks: the strings its tokens
  point to are the maximal runs of bytes other than the blank, in order, the first
  \<open>MAX_ARGS\<close> of them; consecutive blanks collapse, and no token is empty or contains a
  blank. A tab or another whitespace byte is part of a token.
\<close>

theorem tokenizer_splits_on_blanks:
  assumes "terminated buf line" and "tokens_for buf line = (buf', tokens, n)"
  shows "read_argv buf' (take n tokens)
           = take MAX_ARGS (spec_split (\<lambda>c. c = CHR '' '') (cstr buf line))
         \<and> n = length (take MAX_ARGS (spec_split (\<lambda>c. c = CHR '' '') (cstr buf line)))
         \<and> (\<forall>w\<in>set (read_argv buf' (take n tokens)). w \<noteq> [] \<and> CHR '' '' \<notin> set w)"
proof -
  let ?ws = "spec_split (\<lambda>c. c = CHR '' '') (cstr buf line)"
  note tfs = tokens_for_spec [OF assms]
  have "w \<noteq> [] \<and> CHR '' '' \<notin> set w" if "w \<in> set (take MAX_ARGS ?ws)" for w
  proof -
    from that have "w \<in> set ?ws" by (rule in_set_takeD)
    from spec_split_tokens [OF this] show ?thesis by auto
  qed
  with tfs(3,4) show ?thesis by simp
qed

theorem tokenizer_splits_on_blanks_witness:
  "(case tokens_for (''echo   a  b'' @ [NUL]) 0 of
      (buf', tokens, n) \<Rightarrow> (read_argv buf' (take n tokens), n))
   = ([''echo'', ''a'', ''b''], 3)"
proof -
  obtain buf' tokens n where tf: "tokens_for (''echo   a  b'' @ [NUL]) 0 = (buf', tokens, n)"
    by (cases "tokens_for (''echo   a  b'' @ [NUL]) 0") auto
  have tm: "terminated (''echo   a  b'' @ [NUL]) 0"
    by code_simp
  have ws: "take MAX_ARGS (spec_split (\<lambda>c. c = CHR '' '') (cstr (''echo   a  b'' @ [NUL]) 0))
            = [''echo'', ''a'', ''b'']"
    by code_simp
  from tokenizer_splits_on_blanks [OF tm tf]
  have "read_argv buf' (take n tokens) = [''echo'', ''a'', ''b'']"
    and "n = length [''echo'', ''a'', ''b'']"
    unfolding ws by blast+
  then show ?thesis
    unfolding tf by simp
qed

text \<open>
  The claim as stated, with whitespace as separators, would cut \<open>a<TAB>b\<close> in two; the
  code keeps it as one token.
\<close>

theorem tab_is_no_separator_counterexample:
  "(case tokens_for (''a'' @ CHR 0x09 # ''b'' @ [NUL]) 0 of
      (buf', tokens, n) \<Rightarrow> read_argv buf' (take n tokens))
   = [''a'' @ CHR 0x09 # ''b'']
   \<and> spec_split isspace (''a'' @ CHR 0x09 # ''b'') = [''a'', ''b'']"
  by code_simp

section \<open>Properties of exec_command\<close>

lemma exec_command_too_many:
  assumes "terminated (linebuf st) line"
    and "MAX_ARGS \<le> length (spec_split (\<lambda>c. c = CHR '' '') (cstr (linebuf st) line))"
  shows "exec_command os st line fg = Fault OutOfBounds"
  using tokenize_too_many [OF assms] by (simp add: exec_command_def)

lemma exec_command_no_token:
  assumes "terminated (linebuf st) line"
    and "spec_split (\<lambda>c. c = CHR '' '') (cstr (linebuf st) line) = []"
  shows "exec_command os st line fg = Fault NullDeref"
proof -
  let ?ws = "spec_split (\<lambda>c. c = CHR '' '') (cstr (linebuf st) line)"
  from assms(2) have "length ?ws < MAX_ARGS"
    by (simp add: MAX_ARGS_def)
  from tokenize_spec [OF assms(1) this] obtain buf' tokens
    where "tokenize (linebuf st) line = Inr (buf', tokens, length ?ws)"
      and "tokens ! length ?ws = None"
    by blast
  with assms(2) show ?thesis
    by (simp add: exec_command_def)
qed

lemma exec_command_words:
  assumes "terminated (linebuf st) line"
    and "spec_split (\<lambda>c. c = CHR '' '') (cstr (linebuf st) line) = w # args"
    and "length args + 1 < MAX_ARGS"
  obtains buf' tokens t0
  where "frame line (line + strlen (linebuf st) line) (linebuf st) buf'"
    and "read_argv buf' tokens = w # args" and "cstr buf' t0 = w"
    and "\<And>fg. exec_command os st line fg =
       (if w = ''exit'' then Exit ExitBuiltin 0 (st\<lparr>linebuf := buf'\<rparr>)
        else if w = ''cd'' then
          (case args of
             [] \<Rightarrow> Returned (st\<lparr>linebuf := buf'\<rparr>)
           | target # _ \<Rightarrow>
               (case chdir_result os (cwd st) target of
                  Some d \<Rightarrow> Returned (st\<lparr>linebuf := buf', cwd := d\<rparr>)
                | None \<Rightarrow>
                    Returned (printf (''shell: cd: '' @ target
                      @ '': No such file or directory\<newline>'') (st\<lparr>linebuf := buf'\<rparr>))))
        else launch os (st\<lparr>linebuf := buf'\<rparr>) tokens t0 fg)"
proof -
  let ?ws = "spec_split (\<lambda>c. c = CHR '' '') (cstr (linebuf st) line)"
  from assms(2,3) have "length ?ws < MAX_ARGS" by simp
  from tokenize_spec [OF assms(1) this] obtain buf' tokens
    where tk: "tokenize (linebuf st) line = Inr (buf', tokens, length ?ws)"
      and fr: "frame line (line + strlen (linebuf st) line) (linebuf st) buf'"
      and ra: "read_argv buf' tokens = ?ws"
      and at: "\<And>i. i < length ?ws \<Longrightarrow> \<exists>p. tokens ! i = Some p \<and> cstr buf' p = ?ws ! i"
    by blast
  from at [of 0] assms(2) obtain t0 where t0: "tokens ! 0 = Some t0" "cstr buf' t0 = w"
    by auto
  have ex: "exec_command os st line fg =
       (if w = ''exit'' then Exit ExitBuiltin 0 (st\<lparr>linebuf := buf'\<rparr>)
        else if w = ''cd'' then
          (case args of
             [] \<Rightarrow> Returned (st\<lparr>linebuf := buf'\<rparr>)
           | target # _ \<Rightarrow>
               (case chdir_result os (cwd st) target of
                  Some d \<Rightarrow> Returned (st\<lparr>linebuf := buf', cwd := d\<rparr>)
                | None \<Rightarrow>
                    Returned (printf (''shell: cd: '' @ target
                      @ '': No such file or directory\<newline>'') (st\<lparr>linebuf := buf'\<rparr>))))
        else launch os (st\<lparr>linebuf := buf'\<rparr>) tokens t0 fg)" for fg
  proof (cases args)
    case Nil
    with tk t0 assms(2) show ?thesis
      by (simp add: exec_command_def Let_def)
  next
    case (Cons target rest)
    with at [of 1] assms(2) obtain t1 where "tokens ! 1 = Some t1" "cstr buf' t1 = target"
      by auto
    with Cons tk t0 assms(2) show ?thesis
      by (simp add: exec_command_def Let_def split: option.splits)
  qed
  from ra assms(2) have "read_argv buf' tokens = w # args"
    by simp
  from fr this t0(2) ex show ?thesis
    by (rule that)
qed

text \<open>
  Claim C1 is what the code should do and does not. A job whose text is empty or holds
  blanks only has no token; \<open>size\<close> stays 0, \<open>tokens[0]\<close> is the NULL sentinel, and the
  first thing \<open>exec_command\<close> does with it is \<open>strcmp(tokens[0], "exit")\<close>: it reads through
  a null pointer. The line \<open>;;\<close> makes the shell do so on its first job.
\<close>

theorem empty_job_null_dereference:
  "exec_command os (st\<lparr>linebuf := pre @ replicate k (CHR '' '') @ NUL # post\<rparr>) (length pre) fg
     = Fault NullDeref
   \<and> main os [prog] [Line ('';;\<newline>'' @ [NUL]) found] = Fault NullDeref"
proof
  let ?st = "st\<lparr>linebuf := pre @ replicate k (CHR '' '') @ NUL # post\<rparr>"
  have nn: "NUL \<notin> set (replicate k (CHR '' ''))"
    by (auto simp: NUL_def)
  have tm: "terminated (linebuf ?st) (length pre)"
    using terminated_shape [OF nn refl, of pre post] by simp
  have "cstr (linebuf ?st) (length pre) = replicate k (CHR '' '')"
    using cstr_shape [OF nn refl, of pre post] by simp
  moreover have "spec_split (\<lambda>c. c = CHR '' '') (replicate k (CHR '' '') @ []) = []"
    by (subst spec_split_sep) (simp_all add: spec_split_Nil)
  ultimately have "spec_split (\<lambda>c. c = CHR '' '') (cstr (linebuf ?st) (length pre)) = []"
    by simp
  from exec_command_no_token [OF tm this]
  show "exec_command os ?st (length pre) fg = Fault NullDeref" .
next
  show "main os [prog] [Line ('';;\<newline>'' @ [NUL]) found] = Fault NullDeref"
    by code_simp
qed

text \<open>
  Claim C6 is what the code should do and does not. The loop runs while
  \<open>size < MAX_ARGS\<close>, so a job with 128 tokens or more fills all 128 slots of the array
  with tokens; the sentinel is then written to \<open>tokens[128]\<close>, one slot behind the array.
\<close>

theorem sentinel_written_out_of_bounds:
  assumes "terminated buf line"
    and "MAX_ARGS \<le> length (spec_split (\<lambda>c. c = CHR '' '') (cstr buf line))"
    and "tokens_for buf line = (buf', tokens, n)"
  shows "length tokens = MAX_ARGS \<and> n = MAX_ARGS
         \<and> length (read_argv buf' (take n tokens)) = MAX_ARGS
         \<and> store tokens n None = Inl OutOfBounds
         \<and> exec_command os (st\<lparr>linebuf := buf\<rparr>) line fg = Fault OutOfBounds"
proof -
  note tfs = tokens_for_spec [OF assms(1,3)]
  from tfs(3) assms(2) have n: "n = MAX_ARGS" by simp
  from tfs(4) assms(2) have "length (read_argv buf' (take n tokens)) = MAX_ARGS" by simp
  moreover from n tfs(2) have "store tokens n None = Inl OutOfBounds"
    by (simp add: store_def)
  moreover have "exec_command os (st\<lparr>linebuf := buf\<rparr>) line fg = Fault OutOfBounds"
    using assms(1,2) by (intro exec_command_too_many) simp_all
  ultimately show ?thesis
    using n tfs(2) by simp
qed

theorem sentinel_written_out_of_bounds_witness:
  "(case tokens_for (concat (replicate 128 ''a '') @ [NUL]) 0 of
      (buf', tokens, n) \<Rightarrow> (length tokens, n, store tokens n None))
   = (128, 128, Inl OutOfBounds)
   \<and> exec_command example_os
       ((initial_state example_os)\<lparr>linebuf := concat (replicate 128 ''a '') @ [NUL]\<rparr>) 0 True
     = Fault OutOfBounds"
proof -
  let ?buf = "concat (replicate 128 ''a '') @ [NUL]"
  obtain buf' tokens n where tf: "tokens_for ?buf 0 = (buf', tokens, n)"
    by (cases "tokens_for ?buf 0") auto
  have tm: "terminated ?buf 0"
    by code_simp
  have many: "MAX_ARGS \<le> length (spec_split (\<lambda>c. c = CHR '' '') (cstr ?buf 0))"
    by code_simp
  from sentinel_written_out_of_bounds
         [OF tm many tf, of example_os "initial_state example_os" True]
  have a: "length tokens = MAX_ARGS" and b: "n = MAX_ARGS"
    and c: "store tokens n None = Inl OutOfBounds"
    and d: "exec_command example_os ((initial_state example_os)\<lparr>linebuf := ?buf\<rparr>) 0 True
            = Fault OutOfBounds"
    by blast+
  show ?thesis
  proof (rule conjI)
    show "(case tokens_for ?buf 0 of
             (buf', tokens, n) \<Rightarrow> (length tokens, n, store tokens n None))
          = (128, 128, Inl OutOfBounds)"
      unfolding tf using a b c by (simp add: MAX_ARGS_def)
  next
    show "exec_command example_os ((initial_state example_os)\<lparr>linebuf := ?buf\<rparr>) 0 True
          = Fault OutOfBounds"
      by (rule d)
  qed
qed

text \<open>
  Claim C8. A job whose first token is \<open>cd\<close> (and that has fewer than 128 tokens, so that
  the vector is built): when \<open>chdir\<close> refuses the target, \<open>exec_command\<close> returns to the
  job loop with the working directory as it was, one more line printed, which names the
  target, and no child forked; with no target it returns with nothing printed.
\<close>

theorem cd_failure_is_reported:
  assumes "terminated (linebuf st) line"
    and "spec_split (\<lambda>c. c = CHR '' '') (cstr (linebuf st) line) = ''cd'' # args"
    and "length args + 1 < MAX_ARGS"
    and "args \<noteq> [] \<longrightarrow> chdir_result os (cwd st) (hd args) = None"
  shows "\<exists>st'. exec_command os st line fg = Returned st'
           \<and> cwd st' = cwd st \<and> spawned st' = spawned st
           \<and> printed st' = printed st @
               (case args of
                  [] \<Rightarrow> []
                | target # _ \<Rightarrow>
                    [Stdout (''shell: cd: '' @ target @ '': No such file or directory\<newline>'')])"
proof (rule exec_command_words [OF assms(1,2,3), of os], goal_cases)
  case (1 buf' tokens t0)
  from "1"(4) [of fg] assms(4) show ?case
    by (cases args) (simp_all add: printf_def)
qed

theorem cd_failure_is_reported_witness:
  "\<exists>st'. exec_command example_os
             ((initial_state example_os)\<lparr>linebuf := ''cd /nope'' @ [NUL, NUL]\<rparr>) 0 True
           = Returned st'
         \<and> cwd st' = ''/home'' \<and> spawned st' = []
         \<and> printed st' = [Stdout ''shell: cd: /nope: No such file or directory\<newline>'']"
proof -
  let ?st = "(initial_state example_os)\<lparr>linebuf := ''cd /nope'' @ [NUL, NUL]\<rparr>"
  have tm: "terminated (linebuf ?st) 0"
    by code_simp
  have ws: "spec_split (\<lambda>c. c = CHR '' '') (cstr (linebuf ?st) 0) = ''cd'' # [''/nope'']"
    by code_simp
  have len: "length [''/nope''] + 1 < MAX_ARGS"
    by (simp add: MAX_ARGS_def)
  have fails: "[''/nope''] \<noteq> [] \<longrightarrow> chdir_result example_os (cwd ?st) (hd [''/nope'']) = None"
    by (simp add: example_os_def)
  from cd_failure_is_reported [OF tm ws len fails, of True] show ?thesis
    by (simp add: initial_state_def example_os_def)
qed

text \<open>
  Claim C10. The flag \<open>is_foreground\<close> is read after the builtins only: for a job whose
  first token is \<open>exit\<close> or \<open>cd\<close> (with fewer than 128 tokens) \<open>exec_command\<close> does the same
  with and without it. \<open>exit\<close> ends the shell with status 0, \<open>cd\<close> changes the directory
  of the shell itself or prints its line, and neither forks a child. The line \<open>exit&\<close>
  ends the shell with status 0.
\<close>

theorem builtins_ignore_foreground_flag:
  assumes "terminated (linebuf st) line"
    and "spec_split (\<lambda>c. c = CHR '' '') (cstr (linebuf st) line) = w # args"
    and "w = ''exit'' \<or> w = ''cd''"
    and "length args + 1 < MAX_ARGS"
  shows "exec_command os st line False = exec_command os st line True
    \<and> (w = ''exit'' \<longrightarrow>
         (\<exists>st'. exec_command os st line False = Exit ExitBuiltin 0 st'
                \<and> cwd st' = cwd st \<and> printed st' = printed st \<and> spawned st' = spawned st))
    \<and> (w = ''cd'' \<longrightarrow>
         (\<exists>st'. exec_command os st line False = Returned st' \<and> spawned st' = spawned st
                \<and> (case args of
                      [] \<Rightarrow> cwd st' = cwd st \<and> printed st' = printed st
                    | target # _ \<Rightarrow>
                        (case chdir_result os (cwd st) target of
                           Some d \<Rightarrow> cwd st' = d \<and> printed st' = printed st
                         | None \<Rightarrow>
                             cwd st' = cwd st
                             \<and> printed st' = printed st @
                                 [Stdout (''shell: cd: '' @ target
                                          @ '': No such file or directory\<newline>'')]))))
    \<and> main os [prog] [Line (''exit&\<newline>'' @ [NUL]) found]
        = Exit ExitBuiltin 0
            \<lparr>linebuf = ''exit'' @ [NUL, NUL, NUL], cwd = start_dir os,
             printed = [Stdout ''$ ''], spawned = [], jobs = [(''exit'', False)]\<rparr>"
proof (rule exec_command_words [OF assms(1,2,4), of os], goal_cases)
  case (1 buf' tokens t0)
  note ex = "1"(4)
  have a: "exec_command os st line False = exec_command os st line True"
    using assms(3) by (auto simp: ex)
  have b: "\<exists>st'. exec_command os st line False = Exit ExitBuiltin 0 st'
                \<and> cwd st' = cwd st \<and> printed st' = printed st \<and> spawned st' = spawned st"
    if "w = ''exit''"
    using that by (simp add: ex)
  have c: "\<exists>st'. exec_command os st line False = Returned st' \<and> spawned st' = spawned st
                \<and> (case args of
                      [] \<Rightarrow> cwd st' = cwd st \<and> printed st' = printed st
                    | target # _ \<Rightarrow>
                        (case chdir_result os (cwd st) target of
                           Some d \<Rightarrow> cwd st' = d \<and> printed st' = printed st
                         | None \<Rightarrow>
                             cwd st' = cwd st
                             \<and> printed st' = printed st @
                                 [Stdout (''shell: cd: '' @ target
                                          @ '': No such file or directory\<newline>'')]))"
    if "w = ''cd''"
    using that by (simp add: ex printf_def split: list.splits option.splits)
  have d: "main os [prog] [Line (''exit&\<newline>'' @ [NUL]) found]
        = Exit ExitBuiltin 0
            \<lparr>linebuf = ''exit'' @ [NUL, NUL, NUL], cwd = start_dir os,
             printed = [Stdout ''$ ''], spawned = [], jobs = [(''exit'', False)]\<rparr>"
    by code_simp
  from a b c d show ?case by blast
qed

theorem builtins_ignore_foreground_flag_witness:
  "exec_command example_os
     ((initial_state example_os)\<lparr>linebuf := ''cd /tmp'' @ [NUL, NUL]\<rparr>) 0 False
   = exec_command example_os
       ((initial_state example_os)\<lparr>linebuf := ''cd /tmp'' @ [NUL, NUL]\<rparr>) 0 True
   \<and> (\<exists>st'. exec_command example_os
               ((initial_state example_os)\<lparr>linebuf := ''cd /tmp'' @ [NUL, NUL]\<rparr>) 0 False
             = Returned st'
           \<and> spawned st' = [] \<and> cwd st' = ''/tmp'' \<and> printed st' = [])"
proof -
  let ?st = "(initial_state example_os)\<lparr>linebuf := ''cd /tmp'' @ [NUL, NUL]\<rparr>"
  have tm: "terminated (linebuf ?st) 0"
    by code_simp
  have ws: "spec_split (\<lambda>c. c = CHR '' '') (cstr (linebuf ?st) 0) = ''cd'' # [''/tmp'']"
    by code_simp
  have w: "''cd'' = ''exit'' \<or> ''cd'' = ''cd''"
    by simp
  have len: "length [''/tmp''] + 1 < MAX_ARGS"
    by (simp add: MAX_ARGS_def)
  note th = builtins_ignore_foreground_flag [OF tm ws w len, of example_os "''mysh''" "[]"]
  from th have a: "exec_command example_os ?st 0 False = exec_command example_os ?st 0 True"
    by (rule conjunct1)
  from th obtain st' where "exec_command example_os ?st 0 False = Returned st'"
    and "spawned st' = spawned ?st"
    and "case [''/tmp''] of
           [] \<Rightarrow> cwd st' = cwd ?st \<and> printed st' = printed ?st
         | target # _ \<Rightarrow>
             (case chdir_result example_os (cwd ?st) target of
                Some d \<Rightarrow> cwd st' = d \<and> printed st' = printed ?st
              | None \<Rightarrow>
                  cwd st' = cwd ?st
                  \<and> printed st' = printed ?st @
                      [Stdout (''shell: cd: '' @ target
                               @ '': No such file or directory\<newline>'')])"
    by blast
  then have "exec_command example_os ?st 0 False = Returned st'
             \<and> spawned st' = [] \<and> cwd st' = ''/tmp'' \<and> printed st' = []"
    by (simp add: initial_state_def example_os_def)
  with a show ?thesis
    by blast
qed

section \<open>Exit codes\<close>










section \<open>Properties of the job loop\<close>

lemma launch_jobs:
  "launch os st tokens t0 fg = Returned st' \<Longrightarrow> jobs st' = jobs st"
  by (auto simp: launch_def Let_def printf_def split: option.splits wstatus.splits if_splits)

lemma tokenize_frame:
  assumes "terminated buf line" and "tokenize buf line = Inr (buf', tokens, n)"
  shows "frame line (line + strlen buf line) buf buf'"
proof -
  obtain b ts m where tf: "tokens_for buf line = (b, ts, m)"
    by (cases "tokens_for buf line") auto
  with assms(2) have "b = buf'"
    by (simp add: tokenize_def split: sum.splits)
  with tokens_for_spec(1) [OF assms(1) tf] show ?thesis
    by simp
qed

lemma exec_command_frame:
  assumes "terminated (linebuf st) line" and "exec_command os st line fg = Returned st'"
  shows "frame line (line + strlen (linebuf st) line) (linebuf st) (linebuf st')"
    and "jobs st' = jobs st"
proof -
  from assms(2) obtain buf tokens n where tk: "tokenize (linebuf st) line = Inr (buf, tokens, n)"
    by (cases "tokenize (linebuf st) line") (auto simp: exec_command_def)
  from assms(2) tk have "linebuf st' = buf \<and> jobs st' = jobs st"
    by (auto simp: exec_command_def Let_def printf_def
        split: option.splits if_splits dest: launch_linebuf launch_jobs)
  with tokenize_frame [OF assms(1) tk]
  show "frame line (line + strlen (linebuf st) line) (linebuf st) (linebuf st')"
    and "jobs st' = jobs st"
    by simp_all
qed

lemma strpbrk_none:
  assumes "NUL \<notin> set a" and "\<forall>c\<in>set a. \<not> terminator c"
  shows "strpbrk (pre @ a @ NUL # post) (length pre) '';&'' = None"
proof -
  have "takeWhile (\<lambda>c. c \<noteq> NUL \<and> c \<notin> set '';&'') (a @ NUL # post) = a"
    using assms by (intro takeWhile_exact) (auto simp: terminator_def)
  then have "strcspn (pre @ a @ NUL # post) (length pre) '';&'' = length a"
    by (simp add: strcspn_def)
  then show ?thesis
    by (simp add: strpbrk_def nth_append)
qed

lemma strpbrk_some:
  assumes "NUL \<notin> set a" and "\<forall>c\<in>set a. \<not> terminator c" and "terminator t"
  shows "strpbrk (pre @ a @ t # post) (length pre) '';&'' = Some (length pre + length a)"
proof -
  have t: "t \<noteq> NUL"
    using assms(3) by (auto simp: terminator_def NUL_def)
  have "takeWhile (\<lambda>c. c \<noteq> NUL \<and> c \<notin> set '';&'') (a @ t # post) = a"
    using assms by (intro takeWhile_exact) (auto simp: terminator_def)
  then have "strcspn (pre @ a @ t # post) (length pre) '';&'' = length a"
    by (simp add: strcspn_def)
  then show ?thesis
    using t by (simp add: strpbrk_def nth_append)
qed

lemma terminator_cases:
  obtains (none) "\<forall>c\<in>set s. \<not> terminator c" and "spec_jobs s = []"
  | (some) a t rest where "s = a @ t # rest" and "\<forall>c\<in>set a. \<not> terminator c"
      and "terminator t" and "spec_jobs s = (a, t = CHR '';'') # spec_jobs rest"
proof -
  define a where "a = takeWhile (\<lambda>c. \<not> terminator c) s"
  define r where "r = dropWhile (\<lambda>c. \<not> terminator c) s"
  have s: "a @ r = s"
    unfolding a_def r_def by (rule takeWhile_dropWhile_id)
  have a: "\<forall>c\<in>set a. \<not> terminator c"
    unfolding a_def by (auto dest: set_takeWhileD)
  have sj: "spec_jobs s = (case r of [] \<Rightarrow> [] | t # rest \<Rightarrow> (a, t = CHR '';'') # spec_jobs rest)"
    unfolding a_def r_def by (subst spec_jobs.simps) simp
  show ?thesis
  proof (cases r)
    case Nil
    with s a sj show ?thesis by (intro none) auto
  next
    case (Cons t rest)
    then have "r \<noteq> []" by simp
    then have "\<not> \<not> terminator (hd r)"
      unfolding r_def by (rule hd_dropWhile)
    then have "terminator (hd r)" by simp
    with Cons s a sj show ?thesis by (intro some [of a t rest]) auto
  qed
qed

lemma job_step_bytes:
  assumes b1: "buf1 = buf[p := NUL]" and p: "p < length buf" "line \<le> p" "p < hi" "hi \<le> length buf"
    and l2: "length buf2 = length buf1"
    and f2: "\<And>i. i < length buf1 \<Longrightarrow> buf2 ! i \<noteq> buf1 ! i \<Longrightarrow> line \<le> i \<and> i < p \<and> buf2 ! i = NUL"
    and l3: "length buf' = length buf2"
    and f3: "\<And>i. i < length buf2 \<Longrightarrow> buf' ! i \<noteq> buf2 ! i \<Longrightarrow> p + 1 \<le> i \<and> i < hi \<and> buf' ! i = NUL"
    and f4: "\<And>i. p + 1 \<le> i \<Longrightarrow> i < hi \<Longrightarrow> terminator (buf2 ! i) \<Longrightarrow> buf' ! i = NUL"
    and f5: "\<And>i. line \<le> i \<Longrightarrow> i < p \<Longrightarrow> \<not> terminator (buf ! i)"
  shows "length buf' = length buf"
    and "\<forall>i<length buf. buf' ! i \<noteq> buf ! i \<longrightarrow> line \<le> i \<and> i < hi \<and> buf' ! i = NUL"
    and "\<forall>i. line \<le> i \<and> i < hi \<and> terminator (buf ! i) \<longrightarrow> buf' ! i = NUL"
proof -
  show len: "length buf' = length buf"
    using l2 l3 b1 by simp
  have at1: "buf1 ! i = (if i = p then NUL else buf ! i)" if "i < length buf" for i
    using that b1 by (simp add: nth_list_update)
  show "\<forall>i<length buf. buf' ! i \<noteq> buf ! i \<longrightarrow> line \<le> i \<and> i < hi \<and> buf' ! i = NUL"
  proof (intro allI impI)
    fix i assume i: "i < length buf" and ne: "buf' ! i \<noteq> buf ! i"
    have i1: "i < length buf1" "i < length buf2" using i b1 l2 by simp_all
    show "line \<le> i \<and> i < hi \<and> buf' ! i = NUL"
    proof (cases "buf' ! i = buf2 ! i")
      case False
      from f3 [OF i1(2) False] p show ?thesis by simp
    next
      case same: True
      show ?thesis
      proof (cases "buf2 ! i = buf1 ! i")
        case False
        from f2 [OF i1(1) False] same p show ?thesis by simp
      next
        case True
        with same ne at1 [OF i] have "i = p" "buf1 ! i = NUL"
          by (auto split: if_splits)
        with same True p show ?thesis by simp
      qed
    qed
  qed
  show "\<forall>i. line \<le> i \<and> i < hi \<and> terminator (buf ! i) \<longrightarrow> buf' ! i = NUL"
  proof (intro allI impI, elim conjE)
    fix i assume lo: "line \<le> i" and hi: "i < hi" and t: "terminator (buf ! i)"
    from hi p have i: "i < length buf" by simp
    have i1: "i < length buf1" "i < length buf2" using i b1 l2 by simp_all
    consider "i < p" | "i = p" | "p < i" by linarith
    then show "buf' ! i = NUL"
    proof cases
      case 1
      with f5 [OF lo] t show ?thesis by simp
    next
      case 2
      have "buf2 ! i = buf1 ! i"
        using f2 [OF i1(1)] 2 by auto
      moreover have "buf' ! i = buf2 ! i"
        using f3 [OF i1(2)] 2 by auto
      ultimately show ?thesis
        using at1 [OF i] 2 by simp
    next
      case 3
      have "buf2 ! i = buf1 ! i"
        using f2 [OF i1(1)] 3 by auto
      with at1 [OF i] 3 t have "terminator (buf2 ! i)" by simp
      with f4 [of i] 3 hi show ?thesis by simp
    qed
  qed
qed

lemma job_loop_spec:
  assumes "job_loop os st line = Returned st'" and "terminated (linebuf st) line"
  shows "jobs st' = jobs st @ spec_jobs (cstr (linebuf st) line)
    \<and> length (linebuf st') = length (linebuf st)
    \<and> (\<forall>i<length (linebuf st). linebuf st' ! i \<noteq> linebuf st ! i
          \<longrightarrow> line \<le> i \<and> i < line + strlen (linebuf st) line \<and> linebuf st' ! i = NUL)
    \<and> (\<forall>i. line \<le> i \<and> i < line + strlen (linebuf st) line \<and> terminator (linebuf st ! i)
          \<longrightarrow> linebuf st' ! i = NUL)"
  using assms
proof (induction os st line rule: job_loop.induct)
  case (1 os st line)
  from terminated_decomp [OF "1.prems"(2)] obtain pre body post
    where buf: "linebuf st = pre @ body @ NUL # post" and pre: "length pre = line"
      and nn: "NUL \<notin> set body" and tx: "cstr (linebuf st) line = body"
    by blast
  have len: "strlen (linebuf st) line = length body"
    by (simp add: strlen_def tx)
  have inbody: "linebuf st ! i = body ! (i - line)" if "line \<le> i" "i < line + length body" for i
    using that pre by (auto simp: buf nth_append)
  show ?case
  proof (cases body rule: terminator_cases)
    case none
    from strpbrk_none [OF nn none(1), of pre post] pre
    have "strpbrk (linebuf st) line '';&'' = None"
      by (simp add: buf)
    with "1.prems"(1) have "st' = st"
      by (simp add: job_loop.simps)
    moreover have "\<not> terminator (linebuf st ! i)" if "line \<le> i" "i < line + length body" for i
      using inbody [OF that] none(1) that by simp
    ultimately show ?thesis
      using none(2) by (auto simp: tx len)
  next
    case (some a t rest)
    let ?p = "line + length a"
    let ?fg = "linebuf st ! ?p = CHR '';''"
    let ?buf1 = "(linebuf st)[?p := NUL]"
    let ?st1 = "st\<lparr>linebuf := ?buf1, jobs := jobs st @ [(cstr ?buf1 line, ?fg)]\<rparr>"
    from some(1) nn have nna: "NUL \<notin> set a" and nnr: "NUL \<notin> set rest"
      by simp_all
    have buf': "linebuf st = pre @ a @ t # (rest @ NUL # post)"
      by (simp add: buf some(1))
    from strpbrk_some [OF nna some(2,3), of pre "rest @ NUL # post"] pre
    have found: "strpbrk (linebuf st) line '';&'' = Some ?p"
      by (simp add: buf')
    have at: "linebuf st ! ?p = t"
      using pre by (simp add: buf' nth_append)
    have b1: "?buf1 = pre @ a @ NUL # rest @ NUL # post"
      using pre by (simp add: buf' list_update_append)
    have c1: "cstr ?buf1 line = a" and t1: "terminated ?buf1 line"
      unfolding b1 using cstr_shape [OF nna pre] terminated_shape [OF nna pre] by simp_all
    have l1: "strlen ?buf1 line = length a"
      by (simp add: strlen_def c1)
    have "?buf1 = (pre @ a @ [NUL]) @ rest @ NUL # post"
      by (simp add: b1)
    then have c1': "cstr ?buf1 (?p + 1) = rest" and t1': "terminated ?buf1 (?p + 1)"
      using cstr_shape [OF nnr, of "pre @ a @ [NUL]" "?p + 1" post]
        terminated_shape [OF nnr, of "pre @ a @ [NUL]" "?p + 1" post] pre
      by simp_all
    from "1.prems"(1) found obtain st2
      where ex: "exec_command os ?st1 line ?fg = Returned st2"
        and rec: "job_loop os st2 (?p + 1) = Returned st'"
      by (simp add: job_loop.simps [of os st] Let_def split: outcome.splits)
    from exec_command_frame [OF _ ex] t1 l1
    have fr: "frame line ?p ?buf1 (linebuf st2)" and j2: "jobs st2 = jobs ?st1"
      by simp_all
    from frame_outside [OF fr t1'] c1'
    have c2: "cstr (linebuf st2) (?p + 1) = rest" and t2: "terminated (linebuf st2) (?p + 1)"
      by simp_all
    have l2: "strlen (linebuf st2) (?p + 1) = length rest"
      unfolding strlen_def c2 by (rule refl)
    from "1.IH" [OF found refl refl refl ex rec t2]
    have ih1: "jobs st' = jobs st2 @ spec_jobs rest"
      and ih2: "length (linebuf st') = length (linebuf st2)"
      and ih3: "\<And>i. i < length (linebuf st2) \<Longrightarrow> linebuf st' ! i \<noteq> linebuf st2 ! i
                  \<Longrightarrow> ?p + 1 \<le> i \<and> i < ?p + 1 + length rest \<and> linebuf st' ! i = NUL"
      and ih4: "\<And>i. ?p + 1 \<le> i \<Longrightarrow> i < ?p + 1 + length rest
                  \<Longrightarrow> terminator (linebuf st2 ! i) \<Longrightarrow> linebuf st' ! i = NUL"
      unfolding c2 l2 by blast+
    have jobs: "jobs st' = jobs st @ spec_jobs body"
      using ih1 j2 c1 at some(4) by simp
    have hi: "line + length body = ?p + 1 + length rest"
      by (simp add: some(1))
    have f2: "line \<le> i \<and> i < ?p \<and> linebuf st2 ! i = NUL"
      if "i < length ?buf1" "linebuf st2 ! i \<noteq> ?buf1 ! i" for i
      using fr that unfolding frame_def by blast
    have f5: "\<not> terminator (linebuf st ! i)" if "line \<le> i" "i < ?p" for i
    proof -
      from that have "linebuf st ! i = a ! (i - line)"
        using pre by (auto simp: buf' nth_append)
      moreover from that have "a ! (i - line) \<in> set a"
        by (intro nth_mem) simp
      ultimately show ?thesis using some(2) by simp
    qed
    have bounds: "?p < length (linebuf st)" "line \<le> ?p" "?p < ?p + 1 + length rest"
      "?p + 1 + length rest \<le> length (linebuf st)"
      using pre by (simp_all add: buf')
    note bytes = job_step_bytes [OF refl bounds frame_length [OF fr] f2 ih2 ih3 ih4 f5]
    from jobs bytes show ?thesis
      unfolding tx len hi by blast
  qed
qed


lemma same_but_buffer:
  assumes "a\<lparr>linebuf := []\<rparr> = b\<lparr>linebuf := []\<rparr>"
  shows "cwd a = cwd b" and "printed a = printed b" and "spawned a = spawned b"
    and "jobs a = jobs b" and "a\<lparr>linebuf := x\<rparr> = b\<lparr>linebuf := x\<rparr>"
  using assms by (cases a; cases b; simp)+

lemma launch_forget:
  assumes "a\<lparr>linebuf := []\<rparr> = b\<lparr>linebuf := []\<rparr>"
    and "read_argv (linebuf a) ta = read_argv (linebuf b) tb"
    and "cstr (linebuf a) pa = cstr (linebuf b) pb"
  shows "forget_buffer (launch os a ta pa fg) = forget_buffer (launch os b tb pb fg)"
proof -
  obtain l1 c p s j where a: "a = \<lparr>linebuf = l1, cwd = c, printed = p, spawned = s, jobs = j\<rparr>"
    by (cases a) simp
  with assms(1) obtain l2 where b: "b = \<lparr>linebuf = l2, cwd = c, printed = p, spawned = s, jobs = j\<rparr>"
    by (cases b) simp
  from assms(2,3) show ?thesis
    unfolding a b
    by (simp add: launch_def forget_buffer_def Let_def printf_def perror_def
        split: option.splits wstatus.splits)
qed

lemma exec_command_forget:
  assumes ta: "terminated (linebuf a) la" and tb: "terminated (linebuf b) lb"
    and tx: "cstr (linebuf a) la = cstr (linebuf b) lb"
    and ab: "a\<lparr>linebuf := []\<rparr> = b\<lparr>linebuf := []\<rparr>"
  shows "forget_buffer (exec_command os a la fg) = forget_buffer (exec_command os b lb fg)"
proof -
  let ?ws = "spec_split (\<lambda>c. c = CHR '' '') (cstr (linebuf a) la)"
  consider "MAX_ARGS \<le> length ?ws" | "?ws = []"
    | w args where "?ws = w # args" "length args + 1 < MAX_ARGS"
    by (cases ?ws; cases "MAX_ARGS \<le> length ?ws") auto
  then show ?thesis
  proof cases
    case 1
    from exec_command_too_many [OF ta 1, of os fg] exec_command_too_many [OF tb, of os fg] 1 tx
    show ?thesis by simp
  next
    case 2
    from exec_command_no_token [OF ta 2, of os fg] exec_command_no_token [OF tb, of os fg] 2 tx
    show ?thesis by simp
  next
    case (3 w args)
    from 3(1) tx have wb: "spec_split (\<lambda>c. c = CHR '' '') (cstr (linebuf b) lb) = w # args"
      by simp
    show ?thesis
    proof (rule exec_command_words [OF ta 3, of os], goal_cases)
      case A: (1 bufa tokensa t0a)
      show ?case
      proof (rule exec_command_words [OF tb wb 3(2), of os], goal_cases)
        case B: (1 bufb tokensb t0b)
        let ?a = "a\<lparr>linebuf := bufa\<rparr>" and ?b = "b\<lparr>linebuf := bufb\<rparr>"
        have ab': "?a\<lparr>linebuf := []\<rparr> = ?b\<lparr>linebuf := []\<rparr>"
          using ab by simp
        have la: "forget_buffer (launch os ?a tokensa t0a fg)
                  = forget_buffer (launch os ?b tokensb t0b fg)"
          using A(2,3) B(2,3) by (intro launch_forget [OF ab']) simp_all
        have fr: "forget_buffer (Returned ?a) = forget_buffer (Returned ?b)"
          and fe: "forget_buffer (Exit ExitBuiltin 0 ?a) = forget_buffer (Exit ExitBuiltin 0 ?b)"
          and fc: "\<And>d. forget_buffer (Returned (?a\<lparr>cwd := d\<rparr>))
                       = forget_buffer (Returned (?b\<lparr>cwd := d\<rparr>))"
          and fp: "\<And>m. forget_buffer (Returned (printf m ?a))
                       = forget_buffer (Returned (printf m ?b))"
          using same_but_buffer [OF ab] by (simp_all add: forget_buffer_def printf_def)
        have cw: "cwd a = cwd b"
          using same_but_buffer(1) [OF ab] .
        show ?case
          unfolding A(4) [of fg] B(4) [of fg] cw
          using la fr fe fc fp
          by (auto split: list.splits option.splits)
      qed
    qed
  qed
qed

lemma forget_buffer_Returned:
  "forget_buffer r = forget_buffer (Returned s)
   \<Longrightarrow> \<exists>s'. r = Returned s' \<and> s'\<lparr>linebuf := []\<rparr> = s\<lparr>linebuf := []\<rparr>"
  by (cases r) (simp_all add: forget_buffer_def)

lemma forget_buffer_same:
  "a\<lparr>linebuf := []\<rparr> = b\<lparr>linebuf := []\<rparr>
   \<Longrightarrow> forget_buffer (Returned a) = forget_buffer (Returned b)"
  by (simp add: forget_buffer_def)

lemma job_loop_refines:
  assumes "terminated (linebuf st) line" and "st\<lparr>linebuf := []\<rparr> = sp\<lparr>linebuf := []\<rparr>"
  shows "forget_buffer (job_loop os st line)
         = forget_buffer (spec_run_jobs os sp (spec_jobs (cstr (linebuf st) line)))"
  using assms
proof (induction os st line arbitrary: sp rule: job_loop.induct)
  case (1 os st line)
  from terminated_decomp [OF "1.prems"(1)] obtain pre body post
    where buf: "linebuf st = pre @ body @ NUL # post" and pre: "length pre = line"
      and nn: "NUL \<notin> set body" and tx: "cstr (linebuf st) line = body"
    by blast
  show ?case
  proof (cases body rule: terminator_cases)
    case none
    from strpbrk_none [OF nn none(1), of pre post] pre
    have "strpbrk (linebuf st) line '';&'' = None"
      by (simp add: buf)
    then have "job_loop os st line = Returned st"
      by (simp add: job_loop.simps)
    with none(2) forget_buffer_same [OF "1.prems"(2)] show ?thesis
      by (simp add: tx)
  next
    case (some a t rest)
    let ?p = "line + length a"
    let ?fg = "linebuf st ! ?p = CHR '';''"
    let ?buf1 = "(linebuf st)[?p := NUL]"
    let ?st1 = "st\<lparr>linebuf := ?buf1, jobs := jobs st @ [(cstr ?buf1 line, ?fg)]\<rparr>"
    let ?sp1 = "sp\<lparr>linebuf := a @ [NUL], jobs := jobs sp @ [(a, t = CHR '';'')]\<rparr>"
    from some(1) nn have nna: "NUL \<notin> set a" and nnr: "NUL \<notin> set rest"
      by simp_all
    have buf': "linebuf st = pre @ a @ t # (rest @ NUL # post)"
      by (simp add: buf some(1))
    from strpbrk_some [OF nna some(2,3), of pre "rest @ NUL # post"] pre
    have found: "strpbrk (linebuf st) line '';&'' = Some ?p"
      by (simp add: buf')
    have at: "linebuf st ! ?p = t"
      using pre by (simp add: buf' nth_append)
    have b1: "?buf1 = pre @ a @ NUL # rest @ NUL # post"
      using pre by (simp add: buf' list_update_append)
    have c1: "cstr ?buf1 line = a" and t1: "terminated ?buf1 line"
      unfolding b1 using cstr_shape [OF nna pre] terminated_shape [OF nna pre] by simp_all
    have l1: "strlen ?buf1 line = length a"
      by (simp add: strlen_def c1)
    have "?buf1 = (pre @ a @ [NUL]) @ rest @ NUL # post"
      by (simp add: b1)
    then have c1': "cstr ?buf1 (?p + 1) = rest" and t1': "terminated ?buf1 (?p + 1)"
      using cstr_shape [OF nnr, of "pre @ a @ [NUL]" "?p + 1" post]
        terminated_shape [OF nnr, of "pre @ a @ [NUL]" "?p + 1" post] pre
      by simp_all
    have cs: "cstr (a @ [NUL]) 0 = a" and ts: "terminated (a @ [NUL]) 0"
      using cstr_shape [OF nna, of "[]" 0 "[]"] terminated_shape [OF nna, of "[]" 0 "[]"]
      by simp_all
    have j: "jobs st = jobs sp"
      using same_but_buffer(4) [OF "1.prems"(2)] .
    have s1: "?st1\<lparr>linebuf := []\<rparr> = ?sp1\<lparr>linebuf := []\<rparr>"
      using same_but_buffer(5) [OF "1.prems"(2), of "[]"] c1 at j
      by (cases st; cases sp; simp)
    have eq: "forget_buffer (exec_command os ?st1 line ?fg)
              = forget_buffer (exec_command os ?sp1 0 ?fg)"
      using t1 ts c1 cs by (intro exec_command_forget [OF _ _ _ s1]) simp_all
    have spec: "spec_run_jobs os sp (spec_jobs body)
                = (case exec_command os ?sp1 0 ?fg of
                     Returned st' \<Rightarrow> spec_run_jobs os st' (spec_jobs rest)
                   | Exit site code st' \<Rightarrow> Exit site code st'
                   | Fault f \<Rightarrow> Fault f)"
      by (simp add: some(4) at)
    have loop: "job_loop os st line
                = (case exec_command os ?st1 line ?fg of
                     Returned st2 \<Rightarrow> job_loop os st2 (?p + 1)
                   | Exit site code st2 \<Rightarrow> Exit site code st2
                   | Fault f \<Rightarrow> Fault f)"
      using found by (simp add: job_loop.simps [of os st] Let_def)
    show ?thesis
    proof (cases "exec_command os ?st1 line ?fg")
      case (Returned st2)
      from eq [unfolded Returned, symmetric] obtain sp2
        where r2: "exec_command os ?sp1 0 ?fg = Returned sp2"
          and s2: "sp2\<lparr>linebuf := []\<rparr> = st2\<lparr>linebuf := []\<rparr>"
        by (auto dest: forget_buffer_Returned)
      from exec_command_frame [OF _ Returned] t1 l1
      have fr: "frame line ?p ?buf1 (linebuf st2)"
        by simp
      from frame_outside [OF fr t1'] c1'
      have c2: "cstr (linebuf st2) (?p + 1) = rest" and t2: "terminated (linebuf st2) (?p + 1)"
        by simp_all
      from "1.IH" [OF found refl refl refl Returned t2 s2 [symmetric]]
      have "forget_buffer (job_loop os st2 (?p + 1))
            = forget_buffer (spec_run_jobs os sp2 (spec_jobs rest))"
        unfolding c2 .
      then show ?thesis
        unfolding tx spec loop Returned r2 by simp
    next
      case (Exit site code st2)
      with eq obtain sp2 where "exec_command os ?sp1 0 ?fg = Exit site code sp2"
        and "sp2\<lparr>linebuf := []\<rparr> = st2\<lparr>linebuf := []\<rparr>"
        by (cases "exec_command os ?sp1 0 ?fg") (simp_all add: forget_buffer_def)
      then show ?thesis
        unfolding tx spec loop Exit by (simp add: forget_buffer_def)
    next
      case (Fault f)
      with eq have "exec_command os ?sp1 0 ?fg = Fault f"
        by (cases "exec_command os ?sp1 0 ?fg") (simp_all add: forget_buffer_def)
      then show ?thesis
        unfolding tx spec loop Fault by simp
    qed
  qed
qed


lemma launch_returns:
  "fork_result os (length (spawned st)) \<noteq> None \<Longrightarrow> \<exists>st'. launch os st tokens t0 fg = Returned st'"
  by (auto simp: launch_def Let_def split: option.splits wstatus.splits)

lemma exec_command_returns:
  assumes "terminated (linebuf st) line" and "\<forall>n. fork_result os n \<noteq> None"
  shows "(\<exists>st'. exec_command os st line fg = Returned st')
         \<longleftrightarrow> dispatch_returns (cstr (linebuf st) line)"
proof -
  let ?ws = "spec_split (\<lambda>c. c = CHR '' '') (cstr (linebuf st) line)"
  consider "MAX_ARGS \<le> length ?ws" | "?ws = []"
    | w args where "?ws = w # args" "length args + 1 < MAX_ARGS"
    by (cases ?ws; cases "MAX_ARGS \<le> length ?ws") auto
  then show ?thesis
  proof cases
    case 1
    from exec_command_too_many [OF assms(1) 1, of os fg] 1 show ?thesis
      by (simp add: dispatch_returns_def)
  next
    case 2
    from exec_command_no_token [OF assms(1) 2, of os fg] 2 show ?thesis
      by (simp add: dispatch_returns_def)
  next
    case (3 w args)
    show ?thesis
    proof (rule exec_command_words [OF assms(1) 3, of os], goal_cases)
      case (1 buf' tokens t0)
      from assms(2) obtain st' where "launch os (st\<lparr>linebuf := buf'\<rparr>) tokens t0 fg = Returned st'"
        using launch_returns [of os "st\<lparr>linebuf := buf'\<rparr>" tokens t0 fg] by auto
      with "1"(4) [of fg] 3 show ?case
        by (auto simp: dispatch_returns_def split: list.splits option.splits)
    qed
  qed
qed

lemma spec_jobs_no_NUL:
  "NUL \<notin> set s \<Longrightarrow> (job, fg) \<in> set (spec_jobs s) \<Longrightarrow> NUL \<notin> set job"
proof (induction "length s" arbitrary: s rule: less_induct)
  case less
  show ?case
  proof (cases s rule: terminator_cases)
    case none
    with less.prems(2) show ?thesis by simp
  next
    case (some a t rest)
    with less.prems have "job = a \<or> (job, fg) \<in> set (spec_jobs rest)"
      by auto
    moreover from some(1) less.prems(1) have "NUL \<notin> set a" "NUL \<notin> set rest"
      by simp_all
    moreover from some(1) have "length rest < length s"
      by simp
    ultimately show ?thesis
      using less.hyps [of rest] by blast
  qed
qed

lemma spec_run_jobs_returns:
  assumes "\<forall>n. fork_result os n \<noteq> None" and "\<forall>(job, fg)\<in>set js. NUL \<notin> set job"
  shows "(\<exists>st'. spec_run_jobs os st js = Returned st')
         \<longleftrightarrow> (\<forall>(job, fg)\<in>set js. dispatch_returns job)"
  using assms(2)
proof (induction js arbitrary: st)
  case Nil
  show ?case by simp
next
  case (Cons j js)
  obtain job fg where j: "j = (job, fg)" by (cases j) auto
  let ?st1 = "st\<lparr>linebuf := job @ [NUL], jobs := jobs st @ [(job, fg)]\<rparr>"
  from Cons.prems j have nn: "NUL \<notin> set job" by simp
  have cs: "cstr (linebuf ?st1) 0 = job" and ts: "terminated (linebuf ?st1) 0"
    using cstr_shape [OF nn, of "[]" 0 "[]"] terminated_shape [OF nn, of "[]" 0 "[]"]
    by simp_all
  note ret = exec_command_returns [OF ts assms(1), of fg, unfolded cs]
  from Cons.prems have rest: "\<forall>(job, fg)\<in>set js. NUL \<notin> set job" by simp
  show ?case
  proof (cases "exec_command os ?st1 0 fg")
    case (Returned st2)
    with ret have "dispatch_returns job" by simp
    with Cons.IH [OF rest, of st2] Returned j show ?thesis
      by simp
  next
    case (Exit site code st2)
    with ret have "\<not> dispatch_returns job" by simp
    with Exit j show ?thesis by simp
  next
    case (Fault f)
    with ret have "\<not> dispatch_returns job" by simp
    with Fault j show ?thesis by simp
  qed
qed

lemma forget_buffer_returns:
  "forget_buffer a = forget_buffer b \<Longrightarrow> (\<exists>s. a = Returned s) \<longleftrightarrow> (\<exists>s. b = Returned s)"
  by (cases a; cases b) (simp_all add: forget_buffer_def)

lemma cstr_no_NUL: "NUL \<notin> set (cstr buf p)"
  by (auto simp: cstr_def dest: set_takeWhileD)

text \<open>
  Claim C2. On a line that ends inside the buffer, the job loop does what the
  specification says of the jobs of the line: it dispatches one job for every \<open>;\<close> or
  \<open>&\<close>, in order, each with the text between the terminator before it and itself and
  with the flag true for \<open>;\<close> and false for \<open>&\<close>, and it stops at the first job that
  ends the shell. The outcome of the loop and the outcome of dispatching these jobs one
  by one are the same up to the bytes of the buffer: the same children with the same
  arguments, the same messages, the same directory, the same exit or fault. When every
  \<open>fork\<close> succeeds the loop comes back exactly when every job of the line has between 1
  and 127 words and none begins with \<open>exit\<close>. When it comes back, every terminator of the
  line is a NUL byte. For \<open>echo a;echo b&\<close> the jobs are \<open>echo a\<close> in the foreground and
  \<open>echo b\<close> in the background.
\<close>

theorem job_loop_splits_at_terminators:
  assumes "terminated (linebuf st) line"
  shows "forget_buffer (job_loop os st line)
         = forget_buffer (spec_run_jobs os st (spec_jobs (cstr (linebuf st) line)))
    \<and> ((\<forall>n. fork_result os n \<noteq> None) \<longrightarrow>
         ((\<exists>st'. job_loop os st line = Returned st')
          \<longleftrightarrow> (\<forall>(job, fg)\<in>set (spec_jobs (cstr (linebuf st) line)). dispatch_returns job)))
    \<and> (\<forall>st'. job_loop os st line = Returned st' \<longrightarrow>
          jobs st' = jobs st @ spec_jobs (cstr (linebuf st) line)
          \<and> (\<forall>i. line \<le> i \<and> i < line + strlen (linebuf st) line \<and> terminator (linebuf st ! i)
                \<longrightarrow> linebuf st' ! i = NUL))
    \<and> spec_jobs ''echo a;echo b&'' = [(''echo a'', True), (''echo b'', False)]"
proof -
  let ?js = "spec_jobs (cstr (linebuf st) line)"
  have eq: "forget_buffer (job_loop os st line) = forget_buffer (spec_run_jobs os st ?js)"
    by (rule job_loop_refines [OF assms refl])
  have nn: "\<forall>(job, fg)\<in>set ?js. NUL \<notin> set job"
    using spec_jobs_no_NUL [OF cstr_no_NUL] by blast
  have ret: "(\<exists>st'. job_loop os st line = Returned st')
             \<longleftrightarrow> (\<forall>(job, fg)\<in>set ?js. dispatch_returns job)"
    if "\<forall>n. fork_result os n \<noteq> None"
    using forget_buffer_returns [OF eq] spec_run_jobs_returns [OF that nn, of st]
    by simp
  have ex: "spec_jobs ''echo a;echo b&'' = [(''echo a'', True), (''echo b'', False)]"
    by code_simp
  have sp: "jobs st' = jobs st @ ?js
          \<and> (\<forall>i. line \<le> i \<and> i < line + strlen (linebuf st) line \<and> terminator (linebuf st ! i)
                \<longrightarrow> linebuf st' ! i = NUL)"
    if "job_loop os st line = Returned st'" for st'
    using job_loop_spec [OF that assms] by blast
  from eq ret ex sp show ?thesis
    by blast
qed

text \<open>
  Two runs. On \<open>echo a;echo b&\<close> the shell waits for the first child only and reports
  its status; on \<open>ls;exit&pwd;\<close> the loop ends the shell at the second job and the third
  is not dispatched.
\<close>

theorem job_loop_splits_at_terminators_witness:
  "job_loop status_os ((initial_state status_os)\<lparr>linebuf := ''echo a;echo b&'' @ [NUL]\<rparr>) 0
     = Returned
         \<lparr>linebuf = ''echo'' @ NUL # ''a'' @ NUL # ''echo'' @ NUL # ''b'' @ [NUL, NUL],
          cwd = ''/home'',
          printed = [Stdout ''[echo exited with status 0]\<newline>''],
          spawned = [(100, [''echo'', ''a'']), (101, [''echo'', ''b''])],
          jobs = [(''echo a'', True), (''echo b'', False)]\<rparr>
   \<and> forget_buffer
       (spec_run_jobs status_os ((initial_state status_os)\<lparr>linebuf := ''echo a;echo b&'' @ [NUL]\<rparr>)
          [(''echo a'', True), (''echo b'', False)])
     = Returned
         \<lparr>linebuf = [],
          cwd = ''/home'',
          printed = [Stdout ''[echo exited with status 0]\<newline>''],
          spawned = [(100, [''echo'', ''a'']), (101, [''echo'', ''b''])],
          jobs = [(''echo a'', True), (''echo b'', False)]\<rparr>
   \<and> dispatch_returns ''echo a'' \<and> dispatch_returns ''echo b''
   \<and> (''echo'' @ NUL # ''a'' @ NUL # ''echo'' @ NUL # ''b'' @ [NUL, NUL]) ! 6 = NUL
   \<and> (''echo'' @ NUL # ''a'' @ NUL # ''echo'' @ NUL # ''b'' @ [NUL, NUL]) ! 13 = NUL
   \<and> job_loop status_os ((initial_state status_os)\<lparr>linebuf := ''ls;exit&pwd;'' @ [NUL]\<rparr>) 0
     = Exit ExitBuiltin 0
         \<lparr>linebuf = ''ls'' @ NUL # ''exit'' @ NUL # ''pwd;'' @ [NUL],
          cwd = ''/home'',
          printed = [Stdout ''[ls exited with status 0]\<newline>''],
          spawned = [(100, [''ls''])],
          jobs = [(''ls'', True), (''exit'', False)]\<rparr>
   \<and> forget_buffer
       (spec_run_jobs status_os ((initial_state status_os)\<lparr>linebuf := ''ls;exit&pwd;'' @ [NUL]\<rparr>)
          [(''ls'', True), (''exit'', False), (''pwd'', True)])
     = Exit ExitBuiltin 0
         \<lparr>linebuf = [],
          cwd = ''/home'',
          printed = [Stdout ''[ls exited with status 0]\<newline>''],
          spawned = [(100, [''ls''])],
          jobs = [(''ls'', True), (''exit'', False)]\<rparr>
   \<and> \<not> (\<forall>(job, fg)\<in>set [(''ls'', True), (''exit'', False), (''pwd'', True)].
           dispatch_returns job)"
proof -
  let ?sx = "(initial_state status_os)\<lparr>linebuf := ''ls;exit&pwd;'' @ [NUL]\<rparr>"
  let ?sx' = "\<lparr>linebuf = ''ls'' @ NUL # ''exit'' @ NUL # ''pwd;'' @ [NUL],
          cwd = ''/home'',
          printed = [Stdout ''[ls exited with status 0]\<newline>''],
          spawned = [(100, [''ls''])],
          jobs = [(''ls'', True), (''exit'', False)]\<rparr>"
  have tmx: "terminated (linebuf ?sx) 0"
    by code_simp
  have runx: "job_loop status_os ?sx 0 = Exit ExitBuiltin 0 ?sx'"
    by code_simp
  have txx: "cstr (linebuf ?sx) 0 = ''ls;exit&pwd;''"
    by code_simp
  have jx: "spec_jobs ''ls;exit&pwd;'' = [(''ls'', True), (''exit'', False), (''pwd'', True)]"
    by code_simp
  have fk: "\<forall>n. fork_result status_os n \<noteq> None"
    by (simp add: status_os_def example_os_def)
  note u = job_loop_splits_at_terminators [OF tmx, of status_os]
  from u [THEN conjunct1]
  have d1: "forget_buffer
       (spec_run_jobs status_os ?sx [(''ls'', True), (''exit'', False), (''pwd'', True)])
      = Exit ExitBuiltin 0 (?sx'\<lparr>linebuf := []\<rparr>)"
    unfolding txx jx runx by (simp add: forget_buffer_def)
  from runx have "\<not> (\<exists>st'. job_loop status_os ?sx 0 = Returned st')"
    by simp
  with u [THEN conjunct2, THEN conjunct1, THEN mp, OF fk]
  have d2: "\<not> (\<forall>(job, fg)\<in>set [(''ls'', True), (''exit'', False), (''pwd'', True)].
           dispatch_returns job)"
    unfolding txx jx by blast
  let ?st = "(initial_state status_os)\<lparr>linebuf := ''echo a;echo b&'' @ [NUL]\<rparr>"
  let ?st' = "\<lparr>linebuf = ''echo'' @ NUL # ''a'' @ NUL # ''echo'' @ NUL # ''b'' @ [NUL, NUL],
          cwd = ''/home'',
          printed = [Stdout ''[echo exited with status 0]\<newline>''],
          spawned = [(100, [''echo'', ''a'']), (101, [''echo'', ''b''])],
          jobs = [(''echo a'', True), (''echo b'', False)]\<rparr>"
  have tm: "terminated (linebuf ?st) 0"
    by code_simp
  have run: "job_loop status_os ?st 0 = Returned ?st'"
    by code_simp
  have tx: "cstr (linebuf ?st) 0 = ''echo a;echo b&''"
    by code_simp
  have j0: "jobs ?st = []"
    by (simp add: initial_state_def)
  have a6: "(0::nat) \<le> 6 \<and> 6 < 0 + strlen (linebuf ?st) 0 \<and> terminator (linebuf ?st ! 6)"
    by code_simp
  have a13: "(0::nat) \<le> 13 \<and> 13 < 0 + strlen (linebuf ?st) 0 \<and> terminator (linebuf ?st ! 13)"
    by code_simp
  note t = job_loop_splits_at_terminators [OF tm, of status_os]
  note e = t [THEN conjunct2, THEN conjunct2, THEN conjunct2]
  from t [THEN conjunct1]
  have c1: "forget_buffer (spec_run_jobs status_os ?st [(''echo a'', True), (''echo b'', False)])
      = Returned (?st'\<lparr>linebuf := []\<rparr>)"
    unfolding tx e run by (simp add: forget_buffer_def)
  from run have "\<exists>st'. job_loop status_os ?st 0 = Returned st'"
    by (rule exI)
  with t [THEN conjunct2, THEN conjunct1, THEN mp, OF fk]
  have "\<forall>(job, fg)\<in>set (spec_jobs (cstr (linebuf ?st) 0)). dispatch_returns job"
    by (rule iffD1)
  then have c2: "dispatch_returns ''echo a''" "dispatch_returns ''echo b''"
    unfolding tx e by simp_all
  from t [THEN conjunct2, THEN conjunct2, THEN conjunct1, THEN spec, THEN mp, OF run]
  have nul: "\<forall>i. 0 \<le> i \<and> i < 0 + strlen (linebuf ?st) 0 \<and> terminator (linebuf ?st ! i)
          \<longrightarrow> linebuf ?st' ! i = NUL"
    by (rule conjunct2)
  from nul a6 have c3: "linebuf ?st' ! 6 = NUL"
    by blast
  from nul a13 have c4: "linebuf ?st' ! 13 = NUL"
    by blast
  from run c1 c2 c3 c4 runx d1 d2 show ?thesis
    by simp
qed

end
